theory Spec2Isabelle
  imports Main "HOL-Library.Multiset"
begin

section \<open>Errors\<close>

text \<open>
  The exceptions the asset class raises (\<open>ValueError\<close>), the one Python raises for an
  unhashable object (\<open>TypeError\<close>) and the one the remote client raises
  (\<open>ee.EEException\<close>), each with its message.
\<close>

datatype error = ValueError string | TypeError string | EEException string

section \<open>Strings\<close>

text \<open>\<open>str.split("/")\<close>: the pieces between separators, empty pieces included.\<close>

fun split_sep :: "string \<Rightarrow> string list" where
  "split_sep [] = [[]]"
| "split_sep (c # cs) =
     (if c = CHR ''/'' then [] # split_sep cs
      else (case split_sep cs of [] \<Rightarrow> [[c]] | w # ws \<Rightarrow> (c # w) # ws))"

text \<open>\<open>"/".join(xs)\<close>.\<close>

fun join_sep :: "string list \<Rightarrow> string" where
  "join_sep [] = []"
| "join_sep [x] = x"
| "join_sep (x # y # ys) = x @ CHR ''/'' # join_sep (y # ys)"

text \<open>\<open>s.lstrip("/")\<close>.\<close>

definition lstrip_sep :: "string \<Rightarrow> string" where
  "lstrip_sep s = dropWhile (\<lambda>c. c = CHR ''/'') s"

text \<open>\<open>s.startswith(p)\<close>.\<close>

definition startswith :: "string \<Rightarrow> string \<Rightarrow> bool" where
  "startswith s p = (take (length p) s = p)"

text \<open>\<open>s.replace(old, new, 1)\<close> for a one-character \<open>old\<close>: the first occurrence only.\<close>

fun replace_first :: "char \<Rightarrow> string \<Rightarrow> string \<Rightarrow> string" where
  "replace_first old new [] = []"
| "replace_first old new (c # cs) =
     (if c = old then new @ cs else c # replace_first old new cs)"

text \<open>
  \<open>repr\<close> of a string whose characters are below 256: in single quotes, or in double
  quotes when the string has a single quote and no double quote; the quote and the
  backslash are escaped, and so is every character that is not printable.
\<close>

definition printable :: "char \<Rightarrow> bool" where
  "printable c =
     (let n = (of_char c :: nat) in (0x20 \<le> n \<and> n < 0x7F) \<or> (0xA1 \<le> n \<and> n \<noteq> 0xAD))"

definition hex2 :: "nat \<Rightarrow> string" where
  "hex2 n = [''0123456789abcdef'' ! (n div 16), ''0123456789abcdef'' ! (n mod 16)]"

definition repr_char :: "char \<Rightarrow> char \<Rightarrow> string" where
  "repr_char quote c =
     (if c = quote \<or> c = CHR 0x5C then [CHR 0x5C, c]
      else if c = CHR 0x09 then [CHR 0x5C, CHR ''t'']
      else if c = CHR 0x0A then [CHR 0x5C, CHR ''n'']
      else if c = CHR 0x0D then [CHR 0x5C, CHR ''r'']
      else if printable c then [c]
      else [CHR 0x5C, CHR ''x''] @ hex2 (of_char c))"

definition repr :: "string \<Rightarrow> string" where
  "repr s =
     (let quote = (if CHR 0x27 \<in> set s \<and> CHR 0x22 \<notin> set s then CHR 0x22 else CHR 0x27)
      in quote # concat (map (repr_char quote) s) @ [quote])"

section \<open>The path value of the standard library\<close>

text \<open>
  \<open>pathlib.PurePosixPath\<close> as the asset class uses it: a root (\<open>""\<close>, \<open>"/"\<close> or
  \<open>"//"\<close>) and the components after it. The POSIX flavour has no drive.
\<close>

datatype PurePosixPath = PurePosixPath (root: string) (tail: "string list")

text \<open>
  \<open>splitroot\<close> of the POSIX flavour: exactly two leading separators are kept as the root
  \<open>"//"\<close>, any other number of them is the root \<open>"/"\<close>.
\<close>

definition splitroot :: "string \<Rightarrow> string \<times> string" where
  "splitroot part =
     (if part \<noteq> [] \<and> hd part = CHR ''/'' then
        (let stripped_part = lstrip_sep part in
         if length part - length stripped_part = 2 then (''//'', stripped_part)
         else (''/'', stripped_part))
      else ('''', part))"

text \<open>
  \<open>PurePosixPath(s)\<close> for one string: the root is split off, the rest is split on the
  separator, and empty components and \<open>"."\<close> are dropped.
\<close>

definition parse_path :: "string \<Rightarrow> PurePosixPath" where
  "parse_path s =
     (case splitroot s of (rt, rel) \<Rightarrow>
        PurePosixPath rt (filter (\<lambda>x. x \<noteq> [] \<and> x \<noteq> ''.'') (split_sep rel)))"

text \<open>\<open>str(path)\<close>, which is also \<open>path.as_posix()\<close>; the empty path prints as \<open>"."\<close>.\<close>

definition path_str :: "PurePosixPath \<Rightarrow> string" where
  "path_str p =
     (let s = root p @ join_sep (tail p) in if s = [] then ''.'' else s)"

text \<open>\<open>path.parts\<close>: the root, when there is one, is the first part.\<close>

definition path_parts :: "PurePosixPath \<Rightarrow> string list" where
  "path_parts p = (if root p = [] then [] else [root p]) @ tail p"

definition path_is_absolute :: "PurePosixPath \<Rightarrow> bool" where
  "path_is_absolute p = (root p \<noteq> [])"

text \<open>\<open>path.parent\<close> and \<open>path.parents\<close>: the root is kept, components are dropped from the end.\<close>

definition path_parent :: "PurePosixPath \<Rightarrow> PurePosixPath" where
  "path_parent p = PurePosixPath (root p) (butlast (tail p))"

definition path_parents :: "PurePosixPath \<Rightarrow> PurePosixPath list" where
  "path_parents p =
     map (\<lambda>i. PurePosixPath (root p) (take (length (tail p) - 1 - i) (tail p)))
       [0..<length (tail p)]"

section \<open>Assets\<close>

text \<open>The class \<open>Asset\<close> has one field, \<open>_path\<close>.\<close>

datatype Asset = Asset (path: PurePosixPath)

text \<open>
  \<open>Asset.__init__\<close> on a path value: when the path is absolute, its string without the
  first character is parsed again.
\<close>

definition Asset_of_path :: "PurePosixPath \<Rightarrow> Asset" where
  "Asset_of_path p =
     Asset (if path_is_absolute p then parse_path (drop 1 (path_str p)) else p)"

text \<open>\<open>Asset(s)\<close> for a string \<open>s\<close>.\<close>

definition Asset_init :: "string \<Rightarrow> Asset" where
  "Asset_init s = Asset_of_path (parse_path s)"

definition as_posix :: "Asset \<Rightarrow> string" where
  "as_posix a = path_str (path a)"

definition parts :: "Asset \<Rightarrow> string list" where
  "parts a = path_parts (path a)"

text \<open>
  \<open>path / s\<close> for a string \<open>s\<close>: an absolute \<open>s\<close> replaces the path, otherwise its
  components are appended.
\<close>

definition path_join :: "PurePosixPath \<Rightarrow> string \<Rightarrow> PurePosixPath" where
  "path_join p s =
     (let q = parse_path s in
      if root q = [] then PurePosixPath (root p) (tail p @ tail q) else q)"

text \<open>\<open>__truediv__\<close>, for another asset as the right operand.\<close>

definition truediv :: "Asset \<Rightarrow> string \<Rightarrow> Asset" where
  "truediv a other = Asset_of_path (path_join (path a) other)"

subsection \<open>Comparison\<close>

text \<open>
  Python compares two sequences at the first position where they differ, and by length when
  one is a prefix of the other. Strings compare so by code point, and two paths compare so
  by their parts, each part a string.
\<close>

fun seq_lt :: "('a \<Rightarrow> 'a \<Rightarrow> bool) \<Rightarrow> 'a list \<Rightarrow> 'a list \<Rightarrow> bool" where
  "seq_lt lt [] [] = False"
| "seq_lt lt [] (y # ys) = True"
| "seq_lt lt (x # xs) [] = False"
| "seq_lt lt (x # xs) (y # ys) = (if x = y then seq_lt lt xs ys else lt x y)"

fun seq_le :: "('a \<Rightarrow> 'a \<Rightarrow> bool) \<Rightarrow> 'a list \<Rightarrow> 'a list \<Rightarrow> bool" where
  "seq_le le [] ys = True"
| "seq_le le (x # xs) [] = False"
| "seq_le le (x # xs) (y # ys) = (if x = y then seq_le le xs ys else le x y)"

definition char_lt :: "char \<Rightarrow> char \<Rightarrow> bool" where
  "char_lt a b = ((of_char a :: nat) < of_char b)"

definition str_lt :: "string \<Rightarrow> string \<Rightarrow> bool" where
  "str_lt a b = seq_lt char_lt a b"

definition str_le :: "string \<Rightarrow> string \<Rightarrow> bool" where
  "str_le a b = seq_le (\<lambda>x y. char_lt x y \<or> x = y) a b"

definition path_lt :: "PurePosixPath \<Rightarrow> PurePosixPath \<Rightarrow> bool" where
  "path_lt p q = seq_lt str_lt (path_parts p) (path_parts q)"

definition path_le :: "PurePosixPath \<Rightarrow> PurePosixPath \<Rightarrow> bool" where
  "path_le p q = seq_le str_le (path_parts p) (path_parts q)"

definition path_eq :: "PurePosixPath \<Rightarrow> PurePosixPath \<Rightarrow> bool" where
  "path_eq p q = (path_parts p = path_parts q)"

text \<open>
  The operators of \<open>Asset\<close>: the other operand goes through its string and is parsed
  again (\<open>PurePosixPath(str(other))\<close>). \<open>a > b\<close> and \<open>a >= b\<close> on paths are
  \<open>b < a\<close> and \<open>b <= a\<close> on the parts.
\<close>

definition Asset_lt :: "Asset \<Rightarrow> Asset \<Rightarrow> bool" where
  "Asset_lt a other = path_lt (path a) (parse_path (as_posix other))"

definition Asset_gt :: "Asset \<Rightarrow> Asset \<Rightarrow> bool" where
  "Asset_gt a other = path_lt (parse_path (as_posix other)) (path a)"

definition Asset_le :: "Asset \<Rightarrow> Asset \<Rightarrow> bool" where
  "Asset_le a other = path_le (path a) (parse_path (as_posix other))"

definition Asset_ge :: "Asset \<Rightarrow> Asset \<Rightarrow> bool" where
  "Asset_ge a other = path_le (parse_path (as_posix other)) (path a)"

definition Asset_eq :: "Asset \<Rightarrow> Asset \<Rightarrow> bool" where
  "Asset_eq a other = path_eq (path a) (parse_path (as_posix other))"

definition Asset_ne :: "Asset \<Rightarrow> Asset \<Rightarrow> bool" where
  "Asset_ne a other = (\<not> path_eq (path a) (parse_path (as_posix other)))"

text \<open>
  The class defines \<open>__eq__\<close> and no \<open>__hash__\<close>. Python then sets \<open>__hash__\<close> to
  \<open>None\<close>, and \<open>hash(asset)\<close> raises \<open>TypeError\<close>.
\<close>

definition Asset_hash :: "Asset \<Rightarrow> error + int" where
  "Asset_hash a = Inl (TypeError (''unhashable type: '' @ [CHR 0x27] @ ''Asset'' @ [CHR 0x27]))"

subsection \<open>Structure of a path\<close>

text \<open>\<open>dict(enumerate(xs)).get(n)\<close>.\<close>

fun nth_opt :: "'a list \<Rightarrow> nat \<Rightarrow> 'a option" where
  "nth_opt [] n = None"
| "nth_opt (x # xs) 0 = Some x"
| "nth_opt (x # xs) (Suc n) = nth_opt xs n"

definition is_absolute :: "Asset \<Rightarrow> bool \<Rightarrow> error + bool" where
  "is_absolute a raised =
     (if nth_opt (parts a) 0 = Some ''projects'' \<and> nth_opt (parts a) 2 = Some ''assets''
      then Inr True
      else if raised then Inl (ValueError (''Asset '' @ as_posix a @ '' is not absolute.''))
      else Inr False)"

definition is_project :: "Asset \<Rightarrow> bool \<Rightarrow> error + bool" where
  "is_project a raised =
     (if is_absolute a False = Inr True \<and> length (parts a) = 3 then Inr True
      else if raised then Inl (ValueError (''Asset '' @ as_posix a @ '' is not a project.''))
      else Inr False)"

text \<open>
  \<open>home\<close>: the client's current project is a parameter, the string that
  \<open>ee.data._cloud_api_user_project\<close> formats to.
\<close>

definition home :: "string \<Rightarrow> Asset" where
  "home user_project = Asset_init (''projects/'' @ user_project @ ''/assets/'')"

definition expanduser :: "string \<Rightarrow> Asset \<Rightarrow> Asset" where
  "expanduser user_project a =
     Asset_init (replace_first (CHR ''~'') (as_posix (home user_project)) (as_posix a))"

definition parent :: "Asset \<Rightarrow> Asset" where
  "parent a = Asset_of_path (path_parent (path a))"

text \<open>
  The four patterns of \<open>parents\<close>, each as \<open>re.match\<close> decides it. \<open>$\<close> matches at the
  end of the string and before a newline that ends it; \<open>[^/]+\<close> takes one or more
  characters other than the separator, a newline among them.
\<close>

definition at_end :: "string \<Rightarrow> bool" where
  "at_end rest = (rest = [] \<or> rest = [CHR 0x0A])"

text \<open>\<open>^\.$\<close>\<close>

definition re_dot :: "string \<Rightarrow> bool" where
  "re_dot s = (startswith s ''.'' \<and> at_end (drop 1 s))"

text \<open>\<open>^projects$\<close>\<close>

definition re_projects :: "string \<Rightarrow> bool" where
  "re_projects s = (startswith s ''projects'' \<and> at_end (drop 8 s))"

text \<open>
  \<open>^projects/[^/]+$\<close>: the rest is not empty and has no separator (a final newline
  belongs to \<open>[^/]+\<close> as well as to \<open>$\<close>).
\<close>

definition re_owner :: "string \<Rightarrow> bool" where
  "re_owner s =
     (startswith s ''projects/'' \<and>
      (let r = drop 9 s in r \<noteq> [] \<and> CHR ''/'' \<notin> set r))"

text \<open>
  \<open>^projects/[^/]+/assets$\<close>: \<open>[^/]+\<close> ends at the first separator, where
  \<open>/assets\<close> and the end must follow.
\<close>

definition re_assets :: "string \<Rightarrow> bool" where
  "re_assets s =
     (startswith s ''projects/'' \<and>
      (let r = drop 9 s;
           owner = takeWhile (\<lambda>c. c \<noteq> CHR ''/'') r;
           rest = dropWhile (\<lambda>c. c \<noteq> CHR ''/'') r
       in owner \<noteq> [] \<and> startswith rest ''/assets'' \<and> at_end (drop 7 rest)))"

text \<open>\<open>any(re.match(p, str(a)) for p in patterns)\<close>\<close>

definition is_scaffolding :: "string \<Rightarrow> bool" where
  "is_scaffolding s = (re_dot s \<or> re_projects s \<or> re_owner s \<or> re_assets s)"

definition parents :: "Asset \<Rightarrow> Asset list" where
  "parents a =
     map Asset_of_path
       (filter (\<lambda>p. \<not> is_scaffolding (path_str p)) (path_parents (path a)))"

text \<open>
  \<open>path.relative_to(other)\<close>: \<open>other\<close>'s parts must start the path's parts; the
  result is the rest, without a root. The message of the exception formats the path with
  \<open>str\<close> and the other one from its parsed parts, which leaves the empty path empty.
\<close>

definition relative_to :: "PurePosixPath \<Rightarrow> PurePosixPath \<Rightarrow> error + PurePosixPath" where
  "relative_to p other =
     (let n = length (path_parts other) in
      if (if n = 0 then root p \<noteq> [] else take n (path_parts p) \<noteq> path_parts other)
      then Inl (ValueError (repr (path_str p) @ '' is not in the subpath of ''
                            @ repr (root other @ join_sep (tail other))
                            @ '' OR one path is relative and the other is absolute.''))
      else Inr (PurePosixPath [] (drop n (path_parts p))))"

section \<open>The remote store\<close>

text \<open>
  Modelled from the spec: the remote asset store behind \<open>ee.data\<close>, an external service
  whose code is not in the repository. It holds one record per asset, an identifier and a
  type tag, in the store's native order. A folder's children are the records whose
  identifier is the folder's, a separator and one more component. The store can refuse
  a request (network, authorisation, quota): \<open>refused\<close> lists the requests it refuses.
  \<open>calls\<close> is the log of the mutating requests it has received.
\<close>

datatype call = CreateAsset string | CopyAsset string string | DeleteAsset string

record remote =
  assets :: "(string \<times> string) list"
  refused :: "call list"
  calls :: "call list"

definition child_of :: "string \<Rightarrow> string \<Rightarrow> bool" where
  "child_of folder i =
     (startswith i (folder @ ''/'') \<and>
      (let name = drop (length folder + 1) i in name \<noteq> [] \<and> CHR ''/'' \<notin> set name))"

text \<open>
  Modelled from the spec: \<open>getAsset(id)\<close> fetches the record of one identifier, here its
  type, or fails.
\<close>

definition getAsset :: "remote \<Rightarrow> string \<Rightarrow> error + string" where
  "getAsset st i =
     (case map_of (assets st) i of
        None \<Rightarrow> Inl (EEException (''Asset not found: '' @ i))
      | Some t \<Rightarrow> Inr t)"

text \<open>
  Modelled from the spec: \<open>listAssets({parent: id})\<close> is one level of children, in the
  store's native order.
\<close>

definition listAssets :: "remote \<Rightarrow> string \<Rightarrow> (string \<times> string) list" where
  "listAssets st folder = filter (\<lambda>x. child_of folder (fst x)) (assets st)"

text \<open>
  Modelled from the spec: \<open>createAsset({type: FOLDER}, id)\<close> creates a folder and fails
  if the identifier already has a record.
\<close>

definition createAsset :: "remote \<Rightarrow> string \<Rightarrow> (error + unit) \<times> remote" where
  "createAsset st i =
     (let st' = st\<lparr>calls := calls st @ [CreateAsset i]\<rparr> in
      if CreateAsset i \<in> set (refused st)
      then (Inl (EEException (''Request refused: create '' @ i)), st')
      else if map_of (assets st) i = None
      then (Inr (), st'\<lparr>assets := assets st @ [(i, ''FOLDER'')]\<rparr>)
      else (Inl (EEException (''Cannot overwrite asset: '' @ i)), st'))"

text \<open>The record \<open>(k, v)\<close> replaces the record of \<open>k\<close> in place, or is added at the end.\<close>

fun put :: "string \<Rightarrow> string \<Rightarrow> (string \<times> string) list \<Rightarrow> (string \<times> string) list" where
  "put k v [] = [(k, v)]"
| "put k v (x # xs) = (if fst x = k then (k, v) # xs else x # put k v xs)"

text \<open>
  Modelled from the spec: \<open>copyAsset(src, dst, allowOverwrite=true)\<close> copies one record
  on the server; it fails if the source has no record.
\<close>

definition copyAsset :: "remote \<Rightarrow> string \<Rightarrow> string \<Rightarrow> (error + unit) \<times> remote" where
  "copyAsset st src dst =
     (let st' = st\<lparr>calls := calls st @ [CopyAsset src dst]\<rparr> in
      if CopyAsset src dst \<in> set (refused st)
      then (Inl (EEException (''Request refused: copy '' @ src)), st')
      else (case map_of (assets st) src of
              None \<Rightarrow> (Inl (EEException (''Asset not found: '' @ src)), st')
            | Some t \<Rightarrow> (Inr (), st'\<lparr>assets := put dst t (assets st)\<rparr>)))"

text \<open>
  Modelled from the spec: \<open>deleteAsset(id)\<close> deletes one record; a folder must be empty.
\<close>

definition deleteAsset :: "remote \<Rightarrow> string \<Rightarrow> (error + unit) \<times> remote" where
  "deleteAsset st i =
     (let st' = st\<lparr>calls := calls st @ [DeleteAsset i]\<rparr> in
      if DeleteAsset i \<in> set (refused st)
      then (Inl (EEException (''Request refused: delete '' @ i)), st')
      else if map_of (assets st) i = None
      then (Inl (EEException (''Asset not found: '' @ i)), st')
      else if listAssets st i = []
      then (Inr (), st'\<lparr>assets := filter (\<lambda>x. fst x \<noteq> i) (assets st)\<rparr>)
      else (Inl (EEException (''Asset is not empty: '' @ i)), st'))"

section \<open>Operations on the remote store\<close>

definition exists :: "remote \<Rightarrow> Asset \<Rightarrow> bool \<Rightarrow> error + bool" where
  "exists st a raised =
     (case getAsset st (as_posix a) of
        Inr r \<Rightarrow> Inr True
      | Inl e \<Rightarrow>
          if raised then Inl (ValueError (''Asset '' @ as_posix a @ '' does not exist.''))
          else Inr False)"

text \<open>The property \<open>type\<close>.\<close>

definition asset_type :: "remote \<Rightarrow> Asset \<Rightarrow> error + string" where
  "asset_type st a =
     (case exists st a True of
        Inl e \<Rightarrow> Inl e
      | Inr b \<Rightarrow> getAsset st (as_posix a))"

definition is_type :: "remote \<Rightarrow> Asset \<Rightarrow> string \<Rightarrow> bool \<Rightarrow> error + bool" where
  "is_type st a ty raised =
     (case exists st a True of
        Inl e \<Rightarrow> Inl e
      | Inr b \<Rightarrow>
          (case asset_type st a of
             Inl e \<Rightarrow> Inl e
           | Inr t \<Rightarrow>
               if t = ty then Inr True
               else if raised
               then Inl (ValueError (''Asset '' @ as_posix a @ '' is not a '' @ ty @ ''.''))
               else Inr False))"

text \<open>\<open>x or y\<close>, where evaluating either side may raise.\<close>

definition is_feature_collection :: "remote \<Rightarrow> Asset \<Rightarrow> bool \<Rightarrow> error + bool" where
  "is_feature_collection st a raised =
     (case is_type st a ''FEATURE_COLLECTION'' raised of
        Inl e \<Rightarrow> Inl e
      | Inr b \<Rightarrow> if b then Inr True else is_type st a ''TABLE'' raised)"

definition is_folder :: "remote \<Rightarrow> Asset \<Rightarrow> bool \<Rightarrow> error + bool" where
  "is_folder st a raised = is_type st a ''FOLDER'' raised"

subsection \<open>Listing\<close>

lemma child_of_longer: "child_of folder i \<Longrightarrow> length folder < length i"
  by (auto simp: child_of_def startswith_def Let_def)

lemma length_filter_strict:
  "x \<in> set xs \<Longrightarrow> Q x \<Longrightarrow> \<not> P x \<Longrightarrow> (\<And>y. P y \<Longrightarrow> Q y) \<Longrightarrow>
   length (filter P xs) < length (filter Q xs)"
proof (induction xs)
  case Nil
  then show ?case by simp
next
  case (Cons a xs)
  have le: "length (filter P xs) \<le> length (filter Q xs)"
    using Cons.prems(4) by (induction xs) (auto simp: le_SucI)
  show ?case
  proof (cases "x = a")
    case True
    then show ?thesis using Cons.prems le by auto
  next
    case False
    then have "length (filter P xs) < length (filter Q xs)" using Cons by auto
    then show ?thesis using Cons.prems(4) by auto
  qed
qed

text \<open>
  \<open>_recursive_get\<close> of \<open>iterdir\<close>: every listed asset is appended, and a listed folder is
  entered right after it. A child's identifier is longer than its folder's, so the
  recursion ends: fewer records of the store are longer than the child.
\<close>

function recursive_get :: "remote \<Rightarrow> string \<Rightarrow> Asset list \<Rightarrow> Asset list" where
  "recursive_get st folder asset_list =
     fold (\<lambda>asset acc.
             if snd asset = ''FOLDER''
             then recursive_get st (fst asset) (acc @ [Asset_init (fst asset)])
             else acc @ [Asset_init (fst asset)])
       (listAssets st folder) asset_list"
  by pat_completeness auto
termination
proof (relation "measure (\<lambda>(st, folder, acc).
         length (filter (\<lambda>x. length folder < length (fst x)) (assets st)))")
  show "wf (measure (\<lambda>(st, folder, acc).
         length (filter (\<lambda>x. length folder < length (fst x)) (assets st))))"
    by simp
next
  fix st :: remote and folder :: string and asset_list :: "Asset list"
    and x :: "string \<times> string" and xa :: "Asset list"
  assume x: "x \<in> set (listAssets st folder)" and "snd x = ''FOLDER''"
  then have c: "child_of folder (fst x)" and m: "x \<in> set (assets st)"
    by (auto simp: listAssets_def)
  have "length (filter (\<lambda>y. length (fst x) < length (fst y)) (assets st))
      < length (filter (\<lambda>y. length folder < length (fst y)) (assets st))"
    using m child_of_longer[OF c] by (intro length_filter_strict[of x]) auto
  then show "((st, fst x, xa @ [Asset_init (fst x)]), st, folder, asset_list)
       \<in> measure (\<lambda>(st, folder, acc).
           length (filter (\<lambda>x. length folder < length (fst x)) (assets st)))"
    by simp
qed

definition iterdir :: "remote \<Rightarrow> Asset \<Rightarrow> bool \<Rightarrow> error + Asset list" where
  "iterdir st a recursive =
     (case (if is_project a False = Inr True then Inr True else is_type st a ''FOLDER'' True) of
        Inl e \<Rightarrow> Inl e
      | Inr b \<Rightarrow>
          if \<not> recursive
          then Inr (map (\<lambda>asset. Asset_init (fst asset)) (listAssets st (as_posix a)))
          else Inr (recursive_get st (as_posix a) []))"

subsection \<open>Creating folders\<close>

text \<open>The loop of \<open>mkdir\<close> over the folders to create; the first failure ends it.\<close>

fun create_all :: "Asset list \<Rightarrow> remote \<Rightarrow> (error + unit) \<times> remote" where
  "create_all [] st = (Inr (), st)"
| "create_all (p # ps) st =
     (case createAsset st (as_posix p) of
        (Inl e, st') \<Rightarrow> (Inl e, st')
      | (Inr u, st') \<Rightarrow> create_all ps st')"

text \<open>The list \<open>to_be_created\<close> of \<open>mkdir\<close>, as it stands when the parents are checked.\<close>

definition to_be_created :: "remote \<Rightarrow> Asset \<Rightarrow> Asset list" where
  "to_be_created st a =
     (let missing = filter (\<lambda>p. exists st p False = Inr False) (parents a) in
      if exists st a False = Inr False then a # missing else missing)"

definition mkdir :: "remote \<Rightarrow> Asset \<Rightarrow> bool \<Rightarrow> bool \<Rightarrow> (error + Asset) \<times> remote" where
  "mkdir st a with_parents exist_ok =
     (case is_absolute a True of
        Inl e \<Rightarrow> (Inl e, st)
      | Inr b \<Rightarrow>
          if exists st a False = Inr True \<and> \<not> exist_ok
          then (Inl (ValueError (''Asset '' @ as_posix a @ '' already exists.'')), st)
          else if 1 < length (to_be_created st a) \<and> \<not> with_parents
          then (Inl (ValueError (''Parent Asset \"'' @ as_posix (last (to_be_created st a))
                                 @ ''\" does not exist.'')), st)
          else (case create_all (rev (to_be_created st a)) st of
                  (Inl e, st') \<Rightarrow> (Inl e, st')
                | (Inr u, st') \<Rightarrow> (Inr a, st')))"

subsection \<open>Deleting\<close>

definition unlink :: "remote \<Rightarrow> Asset \<Rightarrow> (error + unit) \<times> remote" where
  "unlink st a =
     (case exists st a True of
        Inl e \<Rightarrow> (Inl e, st)
      | Inr b \<Rightarrow> deleteAsset st (as_posix a))"

text \<open>
  The inner function \<open>delete\<close> of \<open>rmdir\<close>: the identifier is recorded, and deleted
  unless the run is dry.
\<close>

definition delete :: "bool \<Rightarrow> Asset \<Rightarrow> string list \<times> remote \<Rightarrow> (error + string list) \<times> remote" where
  "delete dry_run asset s =
     (case s of (output, st) \<Rightarrow>
        if dry_run then (Inr (output @ [as_posix asset]), st)
        else (case deleteAsset st (as_posix asset) of
                (Inl e, st') \<Rightarrow> (Inl e, st')
              | (Inr u, st') \<Rightarrow> (Inr (output @ [as_posix asset]), st')))"

fun delete_all :: "bool \<Rightarrow> Asset list \<Rightarrow> string list \<times> remote \<Rightarrow> (error + string list) \<times> remote" where
  "delete_all dry_run [] s = (Inr (fst s), snd s)"
| "delete_all dry_run (asset # rest) s =
     (case delete dry_run asset s of
        (Inl e, st') \<Rightarrow> (Inl e, st')
      | (Inr output, st') \<Rightarrow> delete_all dry_run rest (output, st'))"

text \<open>
  \<open>assets_ordered\<close>: a dictionary from nesting level to the assets of that level, in
  insertion order (\<open>setdefault\<close>, then \<open>append\<close>).
\<close>

fun bucket_add :: "nat \<Rightarrow> Asset \<Rightarrow> (nat \<times> Asset list) list \<Rightarrow> (nat \<times> Asset list) list" where
  "bucket_add lvl a [] = [(lvl, [a])]"
| "bucket_add lvl a (kv # d) =
     (if fst kv = lvl then (lvl, snd kv @ [a]) # d else kv # bucket_add lvl a d)"

definition assets_ordered :: "Asset list \<Rightarrow> (nat \<times> Asset list) list" where
  "assets_ordered asset_list =
     fold (\<lambda>asset d. bucket_add (length (parts asset)) asset d) asset_list []"

text \<open>
  \<open>sorted(d.items(), reverse=True)\<close>: by level, deepest first (the keys of a dictionary
  differ, so the lists are never compared), then every bucket in turn.
\<close>

definition deletion_order :: "Asset list \<Rightarrow> Asset list" where
  "deletion_order asset_list =
     concat (map snd (rev (sort_key fst (assets_ordered asset_list))))"

definition rmdir :: "remote \<Rightarrow> Asset \<Rightarrow> bool \<Rightarrow> bool option \<Rightarrow> (error + string list) \<times> remote" where
  "rmdir st a recursive dry_run_arg =
     (case is_type st a ''FOLDER'' True of
        Inl e \<Rightarrow> (Inl e, st)
      | Inr b \<Rightarrow>
          (let dry_run = (case dry_run_arg of Some d \<Rightarrow> d | None \<Rightarrow> recursive) in
           if recursive then
             (case iterdir st a True of
                Inl e \<Rightarrow> (Inl e, st)
              | Inr asset_list \<Rightarrow>
                  delete_all dry_run (deletion_order asset_list @ [a]) ([], st))
           else delete_all dry_run [a] ([], st)))"

section \<open>Well-formed paths\<close>

text \<open>
  A component of a parsed path is not empty, is not \<open>"."\<close> and has no separator; the root
  is one of the three the parser makes.
\<close>

definition valid_part :: "string \<Rightarrow> bool" where
  "valid_part c = (c \<noteq> [] \<and> c \<noteq> ''.'' \<and> CHR ''/'' \<notin> set c)"

definition wf_path :: "PurePosixPath \<Rightarrow> bool" where
  "wf_path p = ((root p = [] \<or> root p = ''/'' \<or> root p = ''//'') \<and> list_all valid_part (tail p))"

lemma split_sep_nonempty: "split_sep s \<noteq> []"
  by (induction s) (auto split: list.splits)

lemma split_sep_no_sep: "c \<in> set (split_sep s) \<Longrightarrow> CHR ''/'' \<notin> set c"
  by (induction s arbitrary: c) (auto split: list.splits if_splits)

lemma split_sep_single: "CHR ''/'' \<notin> set x \<Longrightarrow> split_sep x = [x]"
  by (induction x) auto

lemma split_sep_append: "CHR ''/'' \<notin> set x \<Longrightarrow> split_sep (x @ CHR ''/'' # s) = x # split_sep s"
  by (induction x) auto

lemma split_join: "cs \<noteq> [] \<Longrightarrow> \<forall>c\<in>set cs. CHR ''/'' \<notin> set c \<Longrightarrow> split_sep (join_sep cs) = cs"
  by (induction cs rule: join_sep.induct) (auto simp: split_sep_single split_sep_append)

lemma filter_split_join:
  "list_all valid_part cs \<Longrightarrow> filter (\<lambda>x. x \<noteq> [] \<and> x \<noteq> ''.'') (split_sep (join_sep cs)) = cs"
proof (cases cs)
  case Nil then show ?thesis by simp
next
  case (Cons a list)
  assume v: "list_all valid_part cs"
  then have "split_sep (join_sep cs) = cs" using Cons
    by (intro split_join) (auto simp: list_all_iff valid_part_def)
  moreover have "filter (\<lambda>x. x \<noteq> [] \<and> x \<noteq> ''.'') cs = cs"
    using v by (auto simp: list_all_iff valid_part_def intro: filter_True)
  ultimately show ?thesis by simp
qed

lemma valid_part_hd: "valid_part x \<Longrightarrow> hd x \<noteq> CHR ''/''"
  by (cases x) (auto simp: valid_part_def)

lemma join_sep_hd: "list_all valid_part cs \<Longrightarrow> join_sep cs = [] \<or> hd (join_sep cs) \<noteq> CHR ''/''"
proof (induction cs rule: join_sep.induct)
  case 1 then show ?case by simp
next
  case (2 x) then show ?case using valid_part_hd[of x] by simp
next
  case (3 x y ys)
  then have "valid_part x" by simp
  then have "x \<noteq> []" "hd x \<noteq> CHR ''/''" using valid_part_hd[of x] by (auto simp: valid_part_def)
  then show ?case by simp
qed

lemma join_sep_Nil_iff: "list_all valid_part cs \<Longrightarrow> join_sep cs = [] \<longleftrightarrow> cs = []"
  by (induction cs rule: join_sep.induct) (auto simp: valid_part_def)

lemma lstrip_join: "list_all valid_part cs \<Longrightarrow> lstrip_sep (join_sep cs) = join_sep cs"
  using join_sep_hd[of cs] by (cases "join_sep cs") (auto simp: lstrip_sep_def)

lemma splitroot_join: "list_all valid_part cs \<Longrightarrow> splitroot (join_sep cs) = ([], join_sep cs)"
  using join_sep_hd[of cs] by (auto simp: splitroot_def)

lemma splitroot_slash_join:
  "list_all valid_part cs \<Longrightarrow> splitroot (CHR ''/'' # join_sep cs) = (''/'', join_sep cs)"
  by (simp add: splitroot_def lstrip_sep_def lstrip_join[unfolded lstrip_sep_def])

lemma splitroot_slash2_join:
  "list_all valid_part cs \<Longrightarrow> splitroot (CHR ''/'' # CHR ''/'' # join_sep cs) = (''//'', join_sep cs)"
  by (simp add: splitroot_def lstrip_sep_def lstrip_join[unfolded lstrip_sep_def])

lemma parse_join: "list_all valid_part cs \<Longrightarrow> parse_path (join_sep cs) = PurePosixPath [] cs"
  by (simp add: parse_path_def splitroot_join filter_split_join)

lemma parse_dot: "parse_path ''.'' = PurePosixPath [] []"
  by (simp add: parse_path_def splitroot_def)

lemma parse_path_str: "wf_path p \<Longrightarrow> parse_path (path_str p) = p"
proof -
  assume w: "wf_path p"
  obtain r cs where p: "p = PurePosixPath r cs" by (cases p)
  from w p have v: "list_all valid_part cs" and r: "r = [] \<or> r = ''/'' \<or> r = ''//''"
    by (auto simp: wf_path_def)
  from r show ?thesis
  proof (elim disjE)
    assume "r = []"
    then show ?thesis using v p parse_dot
      by (auto simp: path_str_def Let_def parse_join join_sep_Nil_iff)
  next
    assume "r = ''/''"
    then show ?thesis using v p
      by (simp add: path_str_def Let_def parse_path_def splitroot_slash_join filter_split_join)
  next
    assume "r = ''//''"
    then show ?thesis using v p
      by (simp add: path_str_def Let_def parse_path_def splitroot_slash2_join filter_split_join)
  qed
qed

lemma splitroot_root: "fst (splitroot s) = [] \<or> fst (splitroot s) = ''/'' \<or> fst (splitroot s) = ''//''"
  by (simp add: splitroot_def Let_def)

lemma wf_parse_path: "wf_path (parse_path s)"
  using splitroot_root[of s]
  by (auto simp: wf_path_def parse_path_def list_all_iff valid_part_def split: prod.splits dest: split_sep_no_sep)

text \<open>What the constructor makes of a well-formed path, by its root.\<close>

lemma Asset_of_path_rootless: "Asset_of_path (PurePosixPath [] cs) = Asset (PurePosixPath [] cs)"
  by (simp add: Asset_of_path_def path_is_absolute_def)

lemma Asset_of_path_slash:
  "list_all valid_part cs \<Longrightarrow> Asset_of_path (PurePosixPath ''/'' cs) = Asset (PurePosixPath [] cs)"
  by (simp add: Asset_of_path_def path_is_absolute_def path_str_def parse_join)

lemma Asset_of_path_slash2:
  "list_all valid_part cs \<Longrightarrow> Asset_of_path (PurePosixPath ''//'' cs) = Asset (PurePosixPath ''/'' cs)"
  by (simp add: Asset_of_path_def path_is_absolute_def path_str_def parse_path_def
      splitroot_slash_join filter_split_join)

lemma Asset_init_cases:
  "\<exists>cs. list_all valid_part cs \<and>
     (Asset_init s = Asset (PurePosixPath [] cs) \<or> Asset_init s = Asset (PurePosixPath ''/'' cs))"
proof -
  obtain r cs where p: "parse_path s = PurePosixPath r cs" by (cases "parse_path s")
  have w: "wf_path (PurePosixPath r cs)" using wf_parse_path[of s] p by simp
  then have v: "list_all valid_part cs" and r: "r = [] \<or> r = ''/'' \<or> r = ''//''"
    by (auto simp: wf_path_def)
  show ?thesis using r v p
    by (auto simp: Asset_init_def Asset_of_path_rootless Asset_of_path_slash Asset_of_path_slash2)
qed

lemma wf_Asset_init: "wf_path (path (Asset_init s))"
  using Asset_init_cases[of s] by (auto simp: wf_path_def)

lemma parse_as_posix: "parse_path (as_posix (Asset_init s)) = path (Asset_init s)"
  by (simp add: as_posix_def parse_path_str wf_Asset_init)

lemma Asset_init_as_posix_rootless:
  "list_all valid_part cs \<Longrightarrow> Asset_init (as_posix (Asset (PurePosixPath [] cs))) = Asset (PurePosixPath [] cs)"
  by (simp add: Asset_init_def as_posix_def parse_path_str wf_path_def Asset_of_path_rootless)

lemma Asset_init_as_posix_slash:
  "list_all valid_part cs \<Longrightarrow> Asset_init (as_posix (Asset (PurePosixPath ''/'' cs))) = Asset (PurePosixPath [] cs)"
  by (simp add: Asset_init_def as_posix_def parse_path_str wf_path_def Asset_of_path_slash)

section \<open>Parsing twice\<close>

lemma Asset_init_idem_rootless:
  assumes "root (path (Asset_init s)) = []"
  shows "Asset_init (as_posix (Asset_init s)) = Asset_init s"
proof -
  obtain cs where v: "list_all valid_part cs"
    and c: "Asset_init s = Asset (PurePosixPath [] cs) \<or> Asset_init s = Asset (PurePosixPath ''/'' cs)"
    using Asset_init_cases[of s] by blast
  from c assms have "Asset_init s = Asset (PurePosixPath [] cs)" by auto
  then show ?thesis using Asset_init_as_posix_rootless[OF v] by simp
qed

lemma root_Asset_init:
  "root (path (Asset_init s)) = (if root (parse_path s) = ''//'' then ''/'' else [])"
proof -
  obtain r cs where p: "parse_path s = PurePosixPath r cs" by (cases "parse_path s")
  have w: "wf_path (PurePosixPath r cs)" using wf_parse_path[of s] p by simp
  then have v: "list_all valid_part cs" and r: "r = [] \<or> r = ''/'' \<or> r = ''//''"
    by (auto simp: wf_path_def)
  show ?thesis using r v p
    by (auto simp: Asset_init_def Asset_of_path_rootless Asset_of_path_slash Asset_of_path_slash2)
qed

text \<open>
  Parsing is idempotent on every string but those that start with exactly two separators.
\<close>

lemma parse_idempotent_unless_two_separators:
  "root (parse_path s) \<noteq> ''//'' \<Longrightarrow> Asset_init (as_posix (Asset_init s)) = Asset_init s"
  by (rule Asset_init_idem_rootless) (simp add: root_Asset_init)

text \<open>
  Claim C4 (parsing is idempotent for every input string, because construction strips any
  leading separator). The constructor drops one character of an absolute path's string,
  so a string that starts with exactly two separators, whose root the path value keeps as
  \<open>"//"\<close>, becomes an asset that is still absolute: \<open>Asset("//a")\<close> prints as \<open>"/a"\<close>,
  parsing that string gives the asset \<open>"a"\<close>, and the two are not equal.
\<close>

theorem parse_not_idempotent:
  "Asset_init ''//a'' = Asset (PurePosixPath ''/'' [''a'']) \<and>
   as_posix (Asset_init ''//a'') = ''/a'' \<and>
   Asset_init (as_posix (Asset_init ''//a'')) = Asset (PurePosixPath [] [''a'']) \<and>
   Asset_eq (Asset_init (as_posix (Asset_init ''//a''))) (Asset_init ''//a'') = False"
  by code_simp

section \<open>Comparison\<close>

text \<open>
  Claim C5, as amended: equality and ordering of assets are defined purely on the normalized
  component sequence. Two assets are equal exactly when their parts are equal, whatever
  strings they were built from, and \<open><\<close>, \<open>>\<close>, \<open><=\<close>, \<open>>=\<close> compare the parts as
  sequences of strings: \<open>a/b\<close> is below \<open>a-b\<close> as an asset, though not as a string.
\<close>

theorem comparison_on_parts:
  "Asset_eq (Asset_init x) (Asset_init y) = (parts (Asset_init x) = parts (Asset_init y)) \<and>
   Asset_ne (Asset_init x) (Asset_init y) = (parts (Asset_init x) \<noteq> parts (Asset_init y)) \<and>
   Asset_lt (Asset_init x) (Asset_init y) = seq_lt str_lt (parts (Asset_init x)) (parts (Asset_init y)) \<and>
   Asset_gt (Asset_init x) (Asset_init y) = seq_lt str_lt (parts (Asset_init y)) (parts (Asset_init x)) \<and>
   Asset_le (Asset_init x) (Asset_init y) = seq_le str_le (parts (Asset_init x)) (parts (Asset_init y)) \<and>
   Asset_ge (Asset_init x) (Asset_init y) = seq_le str_le (parts (Asset_init y)) (parts (Asset_init x)) \<and>
   Asset_eq (Asset_init ''a//b/'') (Asset_init ''/a/./b'') \<and>
   Asset_lt (Asset_init ''a/b'') (Asset_init ''a-b'') \<and> \<not> str_lt ''a/b'' ''a-b''"
proof -
  have general:
    "Asset_eq (Asset_init x) (Asset_init y) = (parts (Asset_init x) = parts (Asset_init y)) \<and>
     Asset_ne (Asset_init x) (Asset_init y) = (parts (Asset_init x) \<noteq> parts (Asset_init y)) \<and>
     Asset_lt (Asset_init x) (Asset_init y) = seq_lt str_lt (parts (Asset_init x)) (parts (Asset_init y)) \<and>
     Asset_gt (Asset_init x) (Asset_init y) = seq_lt str_lt (parts (Asset_init y)) (parts (Asset_init x)) \<and>
     Asset_le (Asset_init x) (Asset_init y) = seq_le str_le (parts (Asset_init x)) (parts (Asset_init y)) \<and>
     Asset_ge (Asset_init x) (Asset_init y) = seq_le str_le (parts (Asset_init y)) (parts (Asset_init x))"
    by (simp add: Asset_eq_def Asset_ne_def Asset_lt_def Asset_gt_def Asset_le_def Asset_ge_def
        parse_as_posix parts_def path_eq_def path_lt_def path_le_def)
  have e1: "Asset_eq (Asset_init ''a//b/'') (Asset_init ''/a/./b'')" by code_simp
  have e2: "Asset_lt (Asset_init ''a/b'') (Asset_init ''a-b'')" by code_simp
  have e3: "\<not> str_lt ''a/b'' ''a-b''" by code_simp
  from general e1 e2 e3 show ?thesis by blast
qed

text \<open>
  Claim C5 as stated also gives equal assets equal hashes. The class has no hash: two equal
  assets have none, \<open>hash\<close> raises for each.
\<close>

theorem hash_counterexample:
  "Asset_eq (Asset_init ''a//b'') (Asset_init ''a/b'') \<and>
   (\<nexists>h. Asset_hash (Asset_init ''a//b'') = Inr h)"
proof -
  have "Asset_eq (Asset_init ''a//b'') (Asset_init ''a/b'')" by code_simp
  then show ?thesis by (simp add: Asset_hash_def)
qed

section \<open>Expanding the home prefix\<close>

text \<open>
  Claim C10 (a path with no \<open>~\<close> is returned equal to itself, for every path) at the asset
  \<open>Asset("//x")\<close>, which the constructor leaves absolute (see C4): its string \<open>"/x"\<close> has no
  \<open>~\<close>, and \<open>expanduser\<close> returns the asset \<open>"x"\<close>, which is not equal to it.
\<close>

theorem expanduser_rooted:
  "Asset_init ''//x'' = Asset (PurePosixPath ''/'' [''x'']) \<and>
   as_posix (Asset_init ''//x'') = ''/x'' \<and>
   expanduser ''p'' (Asset_init ''//x'') = Asset (PurePosixPath [] [''x'']) \<and>
   Asset_eq (expanduser ''p'' (Asset_init ''//x'')) (Asset_init ''//x'') = False"
  by code_simp

section \<open>Ancestors\<close>

lemma nth_opt_Some: "nth_opt xs n = Some x \<longleftrightarrow> n < length xs \<and> xs ! n = x"
  by (induction xs n rule: nth_opt.induct) auto

lemma absolute_shape:
  assumes "is_absolute (Asset_init s) False = Inr True"
  shows "\<exists>owner rest. list_all valid_part (owner # rest) \<and>
           Asset_init s = Asset (PurePosixPath [] (''projects'' # owner # ''assets'' # rest))"
proof -
  obtain cs where v: "list_all valid_part cs"
    and c: "Asset_init s = Asset (PurePosixPath [] cs) \<or> Asset_init s = Asset (PurePosixPath ''/'' cs)"
    using Asset_init_cases[of s] by blast
  from assms have a0: "nth_opt (parts (Asset_init s)) 0 = Some ''projects''"
    and a2: "nth_opt (parts (Asset_init s)) 2 = Some ''assets''"
    by (auto simp: is_absolute_def split: if_splits)
  from c a0 have r: "Asset_init s = Asset (PurePosixPath [] cs)"
    by (auto simp: parts_def path_parts_def)
  with a0 a2 have "0 < length cs" "cs ! 0 = ''projects''" "2 < length cs" "cs ! 2 = ''assets''"
    by (auto simp: parts_def path_parts_def nth_opt_Some)
  then obtain owner rest where "cs = ''projects'' # owner # ''assets'' # rest"
    by (cases cs; cases "tl cs"; cases "tl (tl cs)") auto
  with v r show ?thesis by auto
qed

lemma takeWhile_no_sep: "CHR ''/'' \<notin> set x \<Longrightarrow> takeWhile (\<lambda>c. c \<noteq> CHR ''/'') (x @ CHR ''/'' # r) = x"
  by (induction x) auto

lemma dropWhile_no_sep: "CHR ''/'' \<notin> set x \<Longrightarrow> dropWhile (\<lambda>c. c \<noteq> CHR ''/'') (x @ CHR ''/'' # r) = CHR ''/'' # r"
  by (induction x) auto

lemma scaffolding_0: "is_scaffolding (path_str (PurePosixPath [] []))"
  by (simp add: is_scaffolding_def re_dot_def path_str_def startswith_def at_end_def)

lemma scaffolding_1: "is_scaffolding (path_str (PurePosixPath [] [''projects'']))"
  by (simp add: is_scaffolding_def re_projects_def path_str_def startswith_def at_end_def)

lemma scaffolding_2:
  "valid_part owner \<Longrightarrow> is_scaffolding (path_str (PurePosixPath [] [''projects'', owner]))"
  by (simp add: is_scaffolding_def re_owner_def path_str_def startswith_def valid_part_def)

lemma scaffolding_3:
  "valid_part owner \<Longrightarrow> is_scaffolding (path_str (PurePosixPath [] [''projects'', owner, ''assets'']))"
  by (simp add: is_scaffolding_def re_assets_def path_str_def startswith_def valid_part_def
      takeWhile_no_sep dropWhile_no_sep at_end_def)

lemma scaffolding_4:
  assumes "valid_part owner"
  shows "\<not> is_scaffolding (path_str (PurePosixPath [] (''projects'' # owner # ''assets'' # x # ys)))"
proof -
  let ?r = "join_sep (x # ys)"
  have s: "path_str (PurePosixPath [] (''projects'' # owner # ''assets'' # x # ys))
         = ''projects/'' @ owner @ ''/assets/'' @ ?r"
    by (simp add: path_str_def)
  have o: "CHR ''/'' \<notin> set owner" "owner \<noteq> []" using assms by (auto simp: valid_part_def)
  have 1: "\<not> re_dot (''projects/'' @ owner @ ''/assets/'' @ ?r)"
    by (simp add: re_dot_def startswith_def)
  have 2: "\<not> re_projects (''projects/'' @ owner @ ''/assets/'' @ ?r)"
    by (simp add: re_projects_def startswith_def at_end_def)
  have 3: "\<not> re_owner (''projects/'' @ owner @ ''/assets/'' @ ?r)"
    by (simp add: re_owner_def startswith_def)
  have 4: "\<not> re_assets (''projects/'' @ owner @ ''/assets/'' @ ?r)"
    using o by (simp add: re_assets_def startswith_def takeWhile_no_sep dropWhile_no_sep at_end_def)
  show ?thesis unfolding s is_scaffolding_def using 1 2 3 4 by blast
qed

lemma scaffolding_take:
  assumes "valid_part owner" and len: "k \<le> 3 + length rest"
  shows "is_scaffolding (path_str (PurePosixPath [] (take k (''projects'' # owner # ''assets'' # rest))))
         \<longleftrightarrow> k < 4"
proof -
  consider "k = 0" | "k = 1" | "k = 2" | "k = 3" | "4 \<le> k" by linarith
  then show ?thesis
  proof cases
    case 1 then show ?thesis using scaffolding_0 by simp
  next
    case 2 then show ?thesis using scaffolding_1 by simp
  next
    case 3 then show ?thesis using scaffolding_2[OF assms(1)] by (simp add: numeral_2_eq_2)
  next
    case 4 then show ?thesis using scaffolding_3[OF assms(1)] by (simp add: numeral_3_eq_3)
  next
    case 5
    define j where "j = k - 4"
    have k: "k = Suc (Suc (Suc (Suc j)))" using 5 by (simp add: j_def)
    show ?thesis
    proof (cases rest)
      case Nil
      then show ?thesis using k len by simp
    next
      case (Cons x ys)
      then show ?thesis using k scaffolding_4[OF assms(1), of x "take j ys"] by simp
    qed
  qed
qed


lemma filter_less_upt: "m \<le> n \<Longrightarrow> filter (\<lambda>i. i < m) [0..<n] = [0..<m]"
proof (induction n)
  case 0 then show ?case by simp
next
  case (Suc n)
  show ?case
  proof (cases "m = Suc n")
    case True
    have "filter (\<lambda>i. i < Suc n) [0..<Suc n] = [0..<Suc n]"
      by (rule filter_True) simp
    then show ?thesis using True by simp
  next
    case False
    then have "m \<le> n" using Suc.prems by simp
    then show ?thesis using Suc.IH by simp
  qed
qed

lemma parents_of_absolute:
  assumes v: "valid_part owner"
  shows "parents (Asset (PurePosixPath [] (''projects'' # owner # ''assets'' # rest)))
       = map (\<lambda>i. Asset (PurePosixPath []
                 (take (2 + length rest - i) (''projects'' # owner # ''assets'' # rest))))
           [0..<length rest - 1]"
proof -
  let ?cs = "''projects'' # owner # ''assets'' # rest"
  let ?f = "\<lambda>i. PurePosixPath [] (take (2 + length rest - i) ?cs)"
  have pp: "path_parents (PurePosixPath [] ?cs) = map ?f [0..<3 + length rest]"
  proof -
    have e: "3 + length rest = Suc (Suc (Suc (length rest)))" by simp
    show ?thesis unfolding e by (simp add: path_parents_def del: upt_Suc)
  qed
  have "filter (\<lambda>i. \<not> is_scaffolding (path_str (?f i))) [0..<3 + length rest]
      = filter (\<lambda>i. i < length rest - 1) [0..<3 + length rest]"
  proof (rule filter_cong[OF refl])
    fix i assume "i \<in> set [0..<3 + length rest]"
    then have "2 + length rest - i \<le> 3 + length rest" by simp
    from scaffolding_take[OF v this]
    show "(\<not> is_scaffolding (path_str (?f i))) = (i < length rest - 1)" by auto
  qed
  also have "\<dots> = [0..<length rest - 1]" by (rule filter_less_upt) simp
  finally have f: "filter (\<lambda>i. \<not> is_scaffolding (path_str (?f i))) [0..<3 + length rest]
      = [0..<length rest - 1]" .
  have "filter (\<lambda>p. \<not> is_scaffolding (path_str p)) (map ?f [0..<3 + length rest])
      = map ?f [0..<length rest - 1]"
    unfolding filter_map comp_def f ..
  then show ?thesis
    by (simp add: parents_def pp Asset_of_path_rootless del: upt_Suc)
qed


text \<open>
  Claim C7: for an absolute asset path of depth at least 4, \<open>parents\<close> is the sequence of
  its proper prefixes from the immediate parent down to the prefix of four components, and
  holds none of the four scaffolding prefixes (the empty path, \<open>projects\<close>,
  \<open>projects/<owner>\<close>, \<open>projects/<owner>/assets\<close>).
\<close>

theorem parents_never_scaffolding:
  assumes "p = Asset_init s"
    and "is_absolute p False = Inr True"
    and "4 \<le> length (parts p)"
  shows "map parts (parents p)
           = map (\<lambda>i. take (length (parts p) - 1 - i) (parts p)) [0..<length (parts p) - 4] \<and>
         (\<forall>q\<in>set (parents p).
            \<not> is_scaffolding (as_posix q) \<and>
            parts q \<notin> {[], [''projects''], [''projects'', parts p ! 1],
                        [''projects'', parts p ! 1, ''assets'']})"
proof -
  obtain owner rest where v: "list_all valid_part (owner # rest)"
    and p: "p = Asset (PurePosixPath [] (''projects'' # owner # ''assets'' # rest))"
    using absolute_shape[of s] assms(1,2) by blast
  let ?cs = "''projects'' # owner # ''assets'' # rest"
  have vo: "valid_part owner" using v by simp
  have ps: "parts p = ?cs" by (simp add: p parts_def path_parts_def)
  have par: "parents p = map (\<lambda>i. Asset (PurePosixPath [] (take (2 + length rest - i) ?cs)))
                           [0..<length rest - 1]"
    unfolding p by (rule parents_of_absolute[OF vo])
  have n: "length (parts p) - 4 = length rest - 1"
    and m: "\<And>i. length (parts p) - 1 - i = 2 + length rest - i"
    by (simp_all add: ps)
  have first: "map parts (parents p)
           = map (\<lambda>i. take (length (parts p) - 1 - i) (parts p)) [0..<length (parts p) - 4]"
    unfolding n m par by (simp add: parts_def path_parts_def ps[symmetric] comp_def)
  have second: "\<not> is_scaffolding (as_posix q) \<and>
            parts q \<notin> {[], [''projects''], [''projects'', parts p ! 1],
                        [''projects'', parts p ! 1, ''assets'']}"
    if q: "q \<in> set (parents p)" for q
  proof -
    from q par obtain i where i: "i < length rest - 1"
      and qi: "q = Asset (PurePosixPath [] (take (2 + length rest - i) ?cs))"
      by auto
    have k: "4 \<le> 2 + length rest - i" "2 + length rest - i \<le> 3 + length rest"
      using i by simp_all
    have "\<not> is_scaffolding (as_posix q)"
      using scaffolding_take[OF vo k(2)] k(1) by (simp add: qi as_posix_def)
    moreover have "length (parts q) = 2 + length rest - i"
      using k by (simp add: qi parts_def path_parts_def)
    then have "4 \<le> length (parts q)" using k(1) by simp
    then have "parts q \<notin> {[], [''projects''], [''projects'', parts p ! 1],
                        [''projects'', parts p ! 1, ''assets'']}"
      by auto
    ultimately show ?thesis by blast
  qed
  from first second show ?thesis by blast
qed

theorem parents_never_scaffolding_witness:
  "is_absolute (Asset_init ''projects/p/assets/a/b/c'') False = Inr True \<and>
   4 \<le> length (parts (Asset_init ''projects/p/assets/a/b/c'')) \<and>
   map parts (parents (Asset_init ''projects/p/assets/a/b/c''))
     = [[''projects'', ''p'', ''assets'', ''a'', ''b''], [''projects'', ''p'', ''assets'', ''a'']]"
proof -
  let ?p = "Asset_init ''projects/p/assets/a/b/c''"
  have ps: "parts ?p = [''projects'', ''p'', ''assets'', ''a'', ''b'', ''c'']" by code_simp
  have h1: "is_absolute ?p False = Inr True" by code_simp
  have h2: "4 \<le> length (parts ?p)" by (simp add: ps)
  from parents_never_scaffolding[OF refl h1 h2]
  have "map parts (parents ?p)
           = map (\<lambda>i. take (length (parts ?p) - 1 - i) (parts ?p)) [0..<length (parts ?p) - 4]"
    by (rule conjunct1)
  also have "\<dots> = [[''projects'', ''p'', ''assets'', ''a'', ''b''], [''projects'', ''p'', ''assets'', ''a'']]"
    unfolding ps by (simp add: upt_rec)
  finally show ?thesis using h1 h2 by blast
qed

section \<open>Type predicates\<close>

lemma is_feature_collection_quiet:
  assumes "asset_type st a = Inr t"
  shows "is_feature_collection st a False = Inr (t = ''FEATURE_COLLECTION'' \<or> t = ''TABLE'')"
  using assms
  by (auto simp: is_feature_collection_def is_type_def asset_type_def split: sum.splits)

lemma is_feature_collection_raises_on_table:
  assumes "asset_type st a = Inr ''TABLE''"
  shows "is_feature_collection st a True
       = Inl (ValueError (''Asset '' @ as_posix a @ '' is not a FEATURE_COLLECTION.''))"
  using assms
  by (auto simp: is_feature_collection_def is_type_def asset_type_def split: sum.splits)

text \<open>
  Claim C8 (with the raise toggle set, \<open>is_feature_collection\<close> raises only when the type is
  neither \<open>FEATURE_COLLECTION\<close> nor \<open>TABLE\<close>) at an asset of type \<open>TABLE\<close>: without the
  toggle the answer is true, with it the first test, for \<open>FEATURE_COLLECTION\<close>, raises
  before the test for \<open>TABLE\<close> is made.
\<close>

theorem is_feature_collection_table:
  "asset_type \<lparr>assets = [(''projects/p/assets/t'', ''TABLE'')], refused = [], calls = []\<rparr>
     (Asset_init ''projects/p/assets/t'') = Inr ''TABLE'' \<and>
   is_feature_collection \<lparr>assets = [(''projects/p/assets/t'', ''TABLE'')], refused = [], calls = []\<rparr>
     (Asset_init ''projects/p/assets/t'') False = Inr True \<and>
   is_feature_collection \<lparr>assets = [(''projects/p/assets/t'', ''TABLE'')], refused = [], calls = []\<rparr>
     (Asset_init ''projects/p/assets/t'') True
     = Inl (ValueError ''Asset projects/p/assets/t is not a FEATURE_COLLECTION.'')"
  by code_simp

section \<open>Recursive listing\<close>

text \<open>
  The pre-order listing in the specification's words: the children of a folder in the
  store's order, each followed at once by its own listing when its type is \<open>FOLDER\<close>.
\<close>

function preorder :: "remote \<Rightarrow> string \<Rightarrow> Asset list" where
  "preorder st folder =
     concat (map (\<lambda>asset.
                    Asset_init (fst asset) #
                    (if snd asset = ''FOLDER'' then preorder st (fst asset) else []))
               (listAssets st folder))"
  by pat_completeness auto
termination
proof (relation "measure (\<lambda>(st, folder).
         length (filter (\<lambda>x. length folder < length (fst x)) (assets st)))")
  show "wf (measure (\<lambda>(st, folder).
         length (filter (\<lambda>x. length folder < length (fst x)) (assets st))))"
    by simp
next
  fix st :: remote and folder :: string and x :: "string \<times> string"
  assume x: "x \<in> set (listAssets st folder)" and "snd x = ''FOLDER''"
  then have c: "child_of folder (fst x)" and m: "x \<in> set (assets st)"
    by (auto simp: listAssets_def)
  have "length (filter (\<lambda>y. length (fst x) < length (fst y)) (assets st))
      < length (filter (\<lambda>y. length folder < length (fst y)) (assets st))"
    using m child_of_longer[OF c] by (intro length_filter_strict[of x]) auto
  then show "((st, fst x), st, folder)
       \<in> measure (\<lambda>(st, folder).
           length (filter (\<lambda>x. length folder < length (fst x)) (assets st)))"
    by simp
qed

declare preorder.simps [simp del]
declare recursive_get.simps [simp del]

lemma fold_preorder:
  assumes "\<And>x acc. x \<in> set xs \<Longrightarrow> f x acc = acc @ g x"
  shows "fold f xs acc = acc @ concat (map g xs)"
  using assms by (induction xs arbitrary: acc) auto

lemma recursive_get_preorder: "recursive_get st folder acc = acc @ preorder st folder"
proof (induction st folder acc rule: recursive_get.induct)
  case (1 st folder asset_list)
  have "fold (\<lambda>asset acc.
             if snd asset = ''FOLDER''
             then recursive_get st (fst asset) (acc @ [Asset_init (fst asset)])
             else acc @ [Asset_init (fst asset)])
          (listAssets st folder) asset_list
      = asset_list @ concat (map (\<lambda>asset.
                    Asset_init (fst asset) #
                    (if snd asset = ''FOLDER'' then preorder st (fst asset) else []))
               (listAssets st folder))"
  proof (rule fold_preorder)
    fix x acc assume "x \<in> set (listAssets st folder)"
    then show "(if snd x = ''FOLDER''
             then recursive_get st (fst x) (acc @ [Asset_init (fst x)])
             else acc @ [Asset_init (fst x)])
        = acc @ Asset_init (fst x) # (if snd x = ''FOLDER'' then preorder st (fst x) else [])"
      using "1.IH"[of x acc] by simp
  qed
  then show ?case
    by (subst recursive_get.simps, subst preorder.simps) simp
qed

text \<open>
  The records below a folder: its children, and the children of every record of type
  \<open>FOLDER\<close> that is below it.
\<close>

inductive descends :: "remote \<Rightarrow> string \<Rightarrow> string \<times> string \<Rightarrow> bool" for st base where
  child: "x \<in> set (listAssets st base) \<Longrightarrow> descends st base x"
| deeper: "descends st base f \<Longrightarrow> snd f = ''FOLDER'' \<Longrightarrow> x \<in> set (listAssets st (fst f))
           \<Longrightarrow> descends st base x"

lemma preorder_descends:
  "a \<in> set (preorder st base) \<Longrightarrow> \<exists>x. descends st base x \<and> a = Asset_init (fst x)"
proof (induction st base arbitrary: a rule: preorder.induct)
  case (1 st folder)
  from "1.prems" obtain x where x: "x \<in> set (listAssets st folder)"
    and a: "a = Asset_init (fst x) \<or> (snd x = ''FOLDER'' \<and> a \<in> set (preorder st (fst x)))"
    by (subst (asm) preorder.simps) (auto split: if_splits)
  from a show ?case
  proof
    assume "a = Asset_init (fst x)"
    then show ?thesis using x descends.child by blast
  next
    assume f: "snd x = ''FOLDER'' \<and> a \<in> set (preorder st (fst x))"
    then obtain y where y: "descends st (fst x) y" and ay: "a = Asset_init (fst y)"
      using "1.IH"[OF x] by blast
    have "descends st folder y" using y
    proof (induction rule: descends.induct)
      case (child z)
      then show ?case using descends.deeper[OF descends.child[OF x]] f by blast
    next
      case (deeper g z)
      then show ?case using descends.deeper by blast
    qed
    then show ?thesis using ay by blast
  qed
qed

lemma preorder_child:
  "x \<in> set (listAssets st base) \<Longrightarrow> Asset_init (fst x) \<in> set (preorder st base)"
  by (subst preorder.simps) force

lemma preorder_sub:
  "x \<in> set (listAssets st base) \<Longrightarrow> snd x = ''FOLDER''
   \<Longrightarrow> set (preorder st (fst x)) \<subseteq> set (preorder st base)"
  by (subst (2) preorder.simps) force

lemma descends_preorder:
  "descends st base x \<Longrightarrow>
     Asset_init (fst x) \<in> set (preorder st base) \<and>
     (snd x = ''FOLDER'' \<longrightarrow> set (preorder st (fst x)) \<subseteq> set (preorder st base))"
proof (induction rule: descends.induct)
  case (child x)
  then show ?case using preorder_child preorder_sub by blast
next
  case (deeper f x)
  then show ?case using preorder_child[of x st "fst f"] preorder_sub[of x st "fst f"] by blast
qed

lemma set_preorder: "set (preorder st base) = {Asset_init (fst x) | x. descends st base x}"
  using preorder_descends descends_preorder by blast

lemma iterdir_folder:
  assumes "is_project a False = Inr True \<or> is_type st a ''FOLDER'' False = Inr True"
  shows "iterdir st a True = Inr (preorder st (as_posix a))"
proof -
  have "(if is_project a False = Inr True then Inr True else is_type st a ''FOLDER'' True)
      = Inr True"
    using assms by (auto simp: is_type_def split: sum.splits if_splits)
  then show ?thesis
    by (simp add: iterdir_def recursive_get_preorder)
qed

text \<open>
  Claim C9: for a folder or a project path, \<open>iterdir\<close> with \<open>recursive=True\<close> returns the
  pre-order listing: every child in the store's order, each before its own children and
  with its whole subtree before the next sibling, entering only the children of type
  \<open>FOLDER\<close>. The listing holds all the records below the path and nothing else.
\<close>

theorem iterdir_recursive_preorder:
  assumes "is_project a False = Inr True \<or> is_type st a ''FOLDER'' False = Inr True"
  shows "iterdir st a True = Inr (preorder st (as_posix a)) \<and>
         preorder st (as_posix a)
           = concat (map (\<lambda>asset.
                            Asset_init (fst asset) #
                            (if snd asset = ''FOLDER'' then preorder st (fst asset) else []))
                       (listAssets st (as_posix a))) \<and>
         set (preorder st (as_posix a))
           = {Asset_init (fst x) | x. descends st (as_posix a) x}"
  using iterdir_folder[OF assms] set_preorder[of st "as_posix a"] preorder.simps[of st "as_posix a"]
  by simp

definition example_store :: remote where
  "example_store =
     \<lparr>assets = [(''projects/p/assets/F'', ''FOLDER''),
                (''projects/p/assets/F/a'', ''IMAGE''),
                (''projects/p/assets/F/b'', ''FOLDER''),
                (''projects/p/assets/F/b/c'', ''TABLE''),
                (''projects/p/assets/F/d'', ''IMAGE'')],
      refused = [], calls = []\<rparr>"

theorem iterdir_recursive_preorder_witness:
  "is_type example_store (Asset_init ''projects/p/assets/F'') ''FOLDER'' False = Inr True \<and>
   iterdir example_store (Asset_init ''projects/p/assets/F'') True
     = Inr [Asset_init ''projects/p/assets/F/a'', Asset_init ''projects/p/assets/F/b'',
            Asset_init ''projects/p/assets/F/b/c'', Asset_init ''projects/p/assets/F/d'']"
proof -
  let ?a = "Asset_init ''projects/p/assets/F''"
  have h: "is_type example_store ?a ''FOLDER'' False = Inr True" by code_simp
  have "iterdir example_store ?a True = Inr (preorder example_store (as_posix ?a))"
    using iterdir_recursive_preorder[OF disjI2[OF h]] by (rule conjunct1)
  also have "preorder example_store (as_posix ?a)
     = [Asset_init ''projects/p/assets/F/a'', Asset_init ''projects/p/assets/F/b'',
        Asset_init ''projects/p/assets/F/b/c'', Asset_init ''projects/p/assets/F/d'']"
    by code_simp
  finally show ?thesis using h by blast
qed

section \<open>The order of deletion\<close>

lemma bucket_add_keys: "fst ` set (bucket_add k a d) = insert k (fst ` set d)"
  by (induction d) auto

lemma bucket_add_distinct: "distinct (map fst d) \<Longrightarrow> distinct (map fst (bucket_add k a d))"
proof (induction d)
  case Nil then show ?case by simp
next
  case (Cons kv d)
  then show ?case using bucket_add_keys[of k a d] by (auto simp: image_iff)
qed

lemma bucket_add_map_of:
  "map_of (bucket_add k a d) =
     (map_of d)(k \<mapsto> (case map_of d k of None \<Rightarrow> [a] | Some b \<Rightarrow> b @ [a]))"
  by (induction d) (auto simp: fun_eq_iff)

text \<open>After the loop every level that occurs has its bucket: the assets of that level, in order.\<close>

lemma buckets_fold:
  "distinct (map fst (fold (\<lambda>x d. bucket_add (f x) x d) xs [])) \<and>
   map_of (fold (\<lambda>x d. bucket_add (f x) x d) xs [])
     = (\<lambda>k. if k \<in> f ` set xs then Some (filter (\<lambda>x. f x = k) xs) else None)"
proof (induction xs rule: rev_induct)
  case Nil
  then show ?case by (simp add: fun_eq_iff)
next
  case (snoc a xs)
  let ?d = "fold (\<lambda>x d. bucket_add (f x) x d) xs []"
  have d: "distinct (map fst ?d)"
    and m: "map_of ?d = (\<lambda>k. if k \<in> f ` set xs then Some (filter (\<lambda>x. f x = k) xs) else None)"
    using snoc by simp_all
  have "map_of (bucket_add (f a) a ?d)
      = (\<lambda>k. if k \<in> f ` set (xs @ [a]) then Some (filter (\<lambda>x. f x = k) (xs @ [a])) else None)"
    unfolding bucket_add_map_of m
    by (auto simp: fun_eq_iff filter_empty_conv) (metis imageI)
  then show ?case using bucket_add_distinct[OF d] by simp
qed

lemma concat_buckets_mset:
  "distinct ks \<Longrightarrow>
   mset (concat (map (\<lambda>k. filter (\<lambda>x. f x = k) xs) ks)) = mset (filter (\<lambda>x. f x \<in> set ks) xs)"
proof (induction ks)
  case Nil then show ?case by simp
next
  case (Cons k ks)
  have "mset (filter (\<lambda>x. f x \<in> set (k # ks)) xs)
      = mset (filter (\<lambda>x. f x = k) xs) + mset (filter (\<lambda>x. f x \<in> set ks) xs)"
    using Cons.prems by (induction xs) auto
  then show ?case using Cons by simp
qed

lemma concat_buckets_sorted:
  "sorted (rev ks) \<Longrightarrow>
   sorted (rev (map f (concat (map (\<lambda>k. filter (\<lambda>x. f x = k) xs) ks))))"
proof (induction ks)
  case Nil then show ?case by simp
next
  case (Cons k ks)
  have ks: "sorted (rev ks)" and le: "\<forall>j\<in>set ks. j \<le> k"
    using Cons.prems by (auto simp: sorted_append)
  have 1: "sorted (rev (map f (filter (\<lambda>x. f x = k) xs)))"
    by (induction xs) (auto simp: sorted_append)
  have 2: "\<forall>y \<in> set (concat (map (\<lambda>k. filter (\<lambda>x. f x = k) xs) ks)). f y \<le> k"
    using le by auto
  show ?case using Cons.IH[OF ks] 1 2 by (auto simp: sorted_append)
qed

lemma deletion_order_buckets:
  "\<exists>ks. distinct ks \<and> sorted (rev ks) \<and> set ks = (\<lambda>a. length (parts a)) ` set xs \<and>
        deletion_order xs = concat (map (\<lambda>k. filter (\<lambda>a. length (parts a) = k) xs) ks)"
proof -
  let ?f = "\<lambda>a. length (parts a)"
  let ?d = "assets_ordered xs"
  let ?sd = "rev (sort_key fst ?d)"
  have d: "distinct (map fst ?d)"
    and m: "map_of ?d = (\<lambda>k. if k \<in> ?f ` set xs then Some (filter (\<lambda>x. ?f x = k) xs) else None)"
    using buckets_fold[of ?f xs] by (simp_all add: assets_ordered_def)
  have keys: "fst ` set ?d = ?f ` set xs"
  proof -
    have "fst ` set ?d = dom (map_of ?d)" by (simp add: dom_map_of_conv_image_fst)
    also have "\<dots> = ?f ` set xs" unfolding m by (auto simp: dom_def)
    finally show ?thesis .
  qed
  have snd: "snd kv = filter (\<lambda>x. ?f x = fst kv) xs" if "kv \<in> set ?d" for kv
  proof -
    have "map_of ?d (fst kv) = Some (snd kv)"
      using that map_of_eq_Some_iff[OF d, of "fst kv" "snd kv"] by simp
    then show ?thesis unfolding m by (auto split: if_splits)
  qed
  have s1: "map snd ?sd = map (\<lambda>k. filter (\<lambda>x. ?f x = k) xs) (map fst ?sd)"
    using snd by (auto simp: rev_map[symmetric])
  have s2: "distinct (map fst ?sd)"
    using d by (simp add: rev_map[symmetric] distinct_map inj_on_def) 
  have s3: "sorted (rev (map fst ?sd))"
    by (simp add: rev_map[symmetric] sorted_sort_key)
  have s4: "set (map fst ?sd) = ?f ` set xs" using keys by simp
  show ?thesis
  proof (intro exI[of _ "map fst ?sd"] conjI)
    show "distinct (map fst ?sd)" by (rule s2)
    show "sorted (rev (map fst ?sd))" by (rule s3)
    show "set (map fst ?sd) = ?f ` set xs" by (rule s4)
    show "deletion_order xs = concat (map (\<lambda>k. filter (\<lambda>a. ?f a = k) xs) (map fst ?sd))"
      unfolding deletion_order_def s1 ..
  qed
qed

lemma mset_deletion_order: "mset (deletion_order xs) = mset xs"
proof -
  obtain ks where ks: "distinct ks" "set ks = (\<lambda>a. length (parts a)) ` set xs"
    "deletion_order xs = concat (map (\<lambda>k. filter (\<lambda>a. length (parts a) = k) xs) ks)"
    using deletion_order_buckets[of xs] by blast
  have "filter (\<lambda>x. length (parts x) \<in> set ks) xs = xs"
    unfolding ks(2) by (rule filter_True) simp
  then show ?thesis using concat_buckets_mset[OF ks(1), of "\<lambda>a. length (parts a)" xs] ks(3) by simp
qed

lemma set_deletion_order: "set (deletion_order xs) = set xs"
  using mset_deletion_order[of xs] by (metis set_mset_mset)

lemma deletion_order_sorted: "sorted (rev (map (\<lambda>a. length (parts a)) (deletion_order xs)))"
proof -
  obtain ks where ks: "sorted (rev ks)"
    "deletion_order xs = concat (map (\<lambda>k. filter (\<lambda>a. length (parts a) = k) xs) ks)"
    using deletion_order_buckets[of xs] by blast
  show ?thesis unfolding ks(2) by (rule concat_buckets_sorted[OF ks(1)])
qed

lemma deletion_order_deeper_first:
  assumes "deletion_order xs = pre @ x # post" and "y \<in> set post"
  shows "length (parts y) \<le> length (parts x)"
  using deletion_order_sorted[of xs] assms by (auto simp: sorted_append)


section \<open>Identifiers of the store\<close>

text \<open>
  An identifier of the store is a normalized path string: components that are not empty
  and not \<open>"."\<close>, joined by single separators, with no leading separator. The identifiers
  of a store are distinct.
\<close>

definition canonical_id :: "string \<Rightarrow> bool" where
  "canonical_id i = list_all valid_part (split_sep i)"

definition wf_store :: "remote \<Rightarrow> bool" where
  "wf_store st =
     (list_all (\<lambda>x. canonical_id (fst x)) (assets st) \<and> distinct (map fst (assets st)))"

lemma split_sep_app: "split_sep (u @ CHR ''/'' # v) = split_sep u @ split_sep v"
proof (induction u)
  case Nil then show ?case by simp
next
  case (Cons c u)
  show ?case
  proof (cases "c = CHR ''/''")
    case True then show ?thesis using Cons by simp
  next
    case False
    obtain w ws where w: "split_sep u = w # ws"
      using split_sep_nonempty[of u] by (cases "split_sep u") auto
    show ?thesis using False Cons w by simp
  qed
qed

lemma join_split: "join_sep (split_sep s) = s"
proof (induction s)
  case Nil then show ?case by simp
next
  case (Cons c s)
  obtain w ws where w: "split_sep s = w # ws"
    using split_sep_nonempty[of s] by (cases "split_sep s") auto
  show ?case
  proof (cases "c = CHR ''/''")
    case True then show ?thesis using Cons w by simp
  next
    case False
    then show ?thesis using Cons w by (cases ws) auto
  qed
qed

lemma canonical_Asset_init:
  assumes "canonical_id i"
  shows "Asset_init i = Asset (PurePosixPath [] (split_sep i))"
proof -
  have "parse_path (join_sep (split_sep i)) = PurePosixPath [] (split_sep i)"
    using assms by (intro parse_join) (simp add: canonical_id_def)
  then show ?thesis by (simp add: join_split Asset_init_def Asset_of_path_rootless)
qed

lemma canonical_as_posix: "canonical_id i \<Longrightarrow> as_posix (Asset_init i) = i"
proof -
  assume c: "canonical_id i"
  have "split_sep i \<noteq> []" by (rule split_sep_nonempty)
  moreover have "join_sep (split_sep i) \<noteq> []"
    using c join_sep_Nil_iff[of "split_sep i"] calculation by (simp add: canonical_id_def)
  ultimately show ?thesis
    by (simp add: canonical_Asset_init[OF c] as_posix_def path_str_def join_split)
qed

lemma canonical_parts: "canonical_id i \<Longrightarrow> parts (Asset_init i) = split_sep i"
  by (simp add: canonical_Asset_init parts_def path_parts_def)

lemma child_of_split:
  assumes "child_of f c"
  shows "split_sep c = split_sep f @ [drop (length f + 1) c]"
proof -
  let ?name = "drop (length f + 1) c"
  from assms have t: "take (length f + 1) c = f @ ''/''" and n: "CHR ''/'' \<notin> set ?name"
    by (auto simp: child_of_def startswith_def Let_def)
  have "c = take (length f + 1) c @ ?name" by simp
  then have "c = (f @ ''/'') @ ?name" unfolding t .
  then have "c = f @ CHR ''/'' # ?name" by simp
  then have "split_sep c = split_sep f @ split_sep ?name"
    using split_sep_app[of f ?name] by simp
  then show ?thesis using split_sep_single[OF n] by simp
qed

lemma child_of_canonical:
  assumes "child_of f c" and "canonical_id c"
  shows "canonical_id f"
    and "length (parts (Asset_init c)) = Suc (length (parts (Asset_init f)))"
proof -
  show f: "canonical_id f"
    using assms child_of_split[OF assms(1)] by (simp add: canonical_id_def)
  show "length (parts (Asset_init c)) = Suc (length (parts (Asset_init f)))"
    using canonical_parts[OF f] canonical_parts[OF assms(2)] child_of_split[OF assms(1)] by simp
qed

lemma wf_store_canonical: "wf_store st \<Longrightarrow> x \<in> set (assets st) \<Longrightarrow> canonical_id (fst x)"
  by (auto simp: wf_store_def list_all_iff)

lemma listAssets_member:
  "x \<in> set (listAssets st f) \<longleftrightarrow> x \<in> set (assets st) \<and> child_of f (fst x)"
  by (auto simp: listAssets_def)

lemma descends_record:
  assumes "wf_store st" and "descends st base x"
  shows "x \<in> set (assets st) \<and> canonical_id (fst x) \<and>
         length (parts (Asset_init base)) < length (parts (Asset_init (fst x)))"
  using assms(2)
proof (induction rule: descends.induct)
  case (child x)
  then have m: "x \<in> set (assets st)" and c: "child_of base (fst x)"
    by (simp_all add: listAssets_member)
  have k: "canonical_id (fst x)" using wf_store_canonical[OF assms(1) m] .
  show ?case using m k child_of_canonical(2)[OF c k] by simp
next
  case (deeper f x)
  then have m: "x \<in> set (assets st)" and c: "child_of (fst f) (fst x)"
    by (simp_all add: listAssets_member)
  have k: "canonical_id (fst x)" using wf_store_canonical[OF assms(1) m] .
  show ?case using m k child_of_canonical(2)[OF c k] deeper.IH by simp
qed

lemma preorder_record:
  assumes "wf_store st" and "x \<in> set (preorder st base)"
  shows "\<exists>r. descends st base r \<and> x = Asset_init (fst r) \<and> as_posix x = fst r"
proof -
  from assms(2) obtain r where r: "descends st base r" "x = Asset_init (fst r)"
    using preorder_descends by blast
  have "canonical_id (fst r)" using descends_record[OF assms(1) r(1)] by simp
  then show ?thesis using r canonical_as_posix by blast
qed


section \<open>Removing a folder\<close>

text \<open>The identifiers a recursive \<open>rmdir\<close> passes to \<open>delete\<close>, in order.\<close>

definition rmdir_order :: "remote \<Rightarrow> Asset \<Rightarrow> string list" where
  "rmdir_order st a = map as_posix (deletion_order (preorder st (as_posix a))) @ [as_posix a]"

lemma delete_all_dry: "delete_all True xs (out, st) = (Inr (out @ map as_posix xs), st)"
  by (induction xs arbitrary: out) (simp_all add: delete_def)

lemma is_type_raised:
  "is_type st a ty False = Inr True \<Longrightarrow> is_type st a ty True = Inr True"
  by (auto simp: is_type_def split: sum.splits if_splits)

lemma rmdir_recursive:
  assumes "is_type st a ''FOLDER'' False = Inr True"
  shows "rmdir st a True dry_run_arg
       = delete_all (case dry_run_arg of Some d \<Rightarrow> d | None \<Rightarrow> True)
           (deletion_order (preorder st (as_posix a)) @ [a]) ([], st)"
  using is_type_raised[OF assms] iterdir_folder[OF disjI2[OF assms]]
  by (simp add: rmdir_def)

text \<open>
  Claim C1: for a folder, \<open>rmdir\<close> with \<open>recursive=True\<close> and no \<open>dry_run\<close> argument
  leaves the remote store as it was, with no request sent, and returns the identifiers
  that would be deleted: those of the recursive listing, each once, and the folder's own
  last.
\<close>

theorem rmdir_recursive_default_is_dry:
  assumes "is_type st a ''FOLDER'' False = Inr True"
  shows "iterdir st a True = Inr (preorder st (as_posix a)) \<and>
         rmdir st a True None = (Inr (rmdir_order st a), st) \<and>
         mset (rmdir_order st a)
           = mset (map as_posix (preorder st (as_posix a))) + {#as_posix a#} \<and>
         last (rmdir_order st a) = as_posix a"
proof -
  have 1: "iterdir st a True = Inr (preorder st (as_posix a))"
    using iterdir_folder[OF disjI2[OF assms]] .
  have 2: "rmdir st a True None = (Inr (rmdir_order st a), st)"
    by (simp add: rmdir_recursive[OF assms] delete_all_dry rmdir_order_def)
  have 3: "mset (rmdir_order st a)
           = mset (map as_posix (preorder st (as_posix a))) + {#as_posix a#}"
    using mset_deletion_order[of "preorder st (as_posix a)"]
    by (simp add: rmdir_order_def)
  have 4: "last (rmdir_order st a) = as_posix a" by (simp add: rmdir_order_def)
  from 1 2 3 4 show ?thesis by blast
qed

theorem rmdir_recursive_default_is_dry_witness:
  "is_type example_store (Asset_init ''projects/p/assets/F'') ''FOLDER'' False = Inr True \<and>
   rmdir example_store (Asset_init ''projects/p/assets/F'') True None
     = (Inr [''projects/p/assets/F/b/c'', ''projects/p/assets/F/a'', ''projects/p/assets/F/b'',
             ''projects/p/assets/F/d'', ''projects/p/assets/F''], example_store)"
proof -
  let ?a = "Asset_init ''projects/p/assets/F''"
  have h: "is_type example_store ?a ''FOLDER'' False = Inr True" by code_simp
  have "rmdir example_store ?a True None = (Inr (rmdir_order example_store ?a), example_store)"
    using rmdir_recursive_default_is_dry[OF h] by blast
  also have "rmdir_order example_store ?a
     = [''projects/p/assets/F/b/c'', ''projects/p/assets/F/a'', ''projects/p/assets/F/b'',
        ''projects/p/assets/F/d'', ''projects/p/assets/F'']"
    by code_simp
  finally show ?thesis using h by blast
qed


lemma deleteAsset_calls: "calls (snd (deleteAsset st i)) = calls st @ [DeleteAsset i]"
  by (simp add: deleteAsset_def Let_def)

lemma delete_all_live:
  "delete_all False xs (out, st) = (r, st') \<Longrightarrow>
   \<exists>k. calls st' = calls st @ map DeleteAsset (take k (map as_posix xs)) \<and>
       (case r of Inr res \<Rightarrow> res = out @ map as_posix xs \<and> k = length xs | Inl e \<Rightarrow> k \<le> length xs)"
proof (induction xs arbitrary: out st)
  case Nil
  then show ?case by auto
next
  case (Cons x xs)
  obtain d st1 where d: "deleteAsset st (as_posix x) = (d, st1)" by (cases "deleteAsset st (as_posix x)")
  have c1: "calls st1 = calls st @ [DeleteAsset (as_posix x)]"
    using deleteAsset_calls[of st "as_posix x"] d by simp
  show ?case
  proof (cases d)
    case (Inl e)
    then have "r = Inl e" "st' = st1" using Cons.prems d by (simp_all add: delete_def)
    then show ?thesis using c1 by (intro exI[of _ 1]) simp
  next
    case (Inr u)
    then have "delete_all False xs (out @ [as_posix x], st1) = (r, st')"
      using Cons.prems d by (simp add: delete_def)
    from Cons.IH[OF this] obtain k where
      k: "calls st' = calls st1 @ map DeleteAsset (take k (map as_posix xs))"
         "(case r of Inr res \<Rightarrow> res = (out @ [as_posix x]) @ map as_posix xs \<and> k = length xs
           | Inl e \<Rightarrow> k \<le> length xs)"
      by blast
    show ?thesis using k c1 by (intro exI[of _ "Suc k"]) (auto split: sum.splits)
  qed
qed

lemma order_split:
  assumes "rmdir_order st a = pre @ f # post"
  shows "(post = [] \<and> f = as_posix a \<and>
          pre = map as_posix (deletion_order (preorder st (as_posix a)))) \<or>
         (\<exists>pre' x post'. deletion_order (preorder st (as_posix a)) = pre' @ x # post' \<and>
            pre = map as_posix pre' \<and> f = as_posix x \<and>
            post = map as_posix post' @ [as_posix a])"
proof (cases post rule: rev_cases)
  case Nil
  then show ?thesis using assms by (auto simp: rmdir_order_def)
next
  case (snoc post0 z)
  then have "map as_posix (deletion_order (preorder st (as_posix a))) = pre @ f # post0"
    and z: "z = as_posix a"
    using assms by (auto simp: rmdir_order_def)
  then obtain pre' x post' where
    "deletion_order (preorder st (as_posix a)) = pre' @ x # post'"
    "pre = map as_posix pre'" "f = as_posix x" "post0 = map as_posix post'"
    by (auto simp: map_eq_append_conv map_eq_Cons_conv)
  then show ?thesis using snoc z by blast
qed

lemma listed_record:
  assumes "wf_store st" and "x \<in> set (deletion_order (preorder st base))"
  shows "\<exists>r. descends st base r \<and> r \<in> set (assets st) \<and> canonical_id (fst r) \<and>
             x = Asset_init (fst r) \<and> as_posix x = fst r"
proof -
  have "x \<in> set (preorder st base)" using assms(2) set_deletion_order by blast
  then obtain r where r: "descends st base r" "x = Asset_init (fst r)" "as_posix x = fst r"
    using preorder_record[OF assms(1)] by blast
  then show ?thesis using descends_record[OF assms(1) r(1)] by blast
qed

lemma child_listed:
  assumes "wf_store st" and "descends st base r"
  shows "Asset_init (fst r) \<in> set (deletion_order (preorder st base))"
  using descends_preorder[OF assms(2)] set_deletion_order by blast


lemma order_depth:
  assumes wf: "wf_store st"
    and split: "rmdir_order st a = pre @ x # post" and y: "y \<in> set post"
  shows "length (parts (Asset_init y)) \<le> length (parts (Asset_init x))"
proof -
  let ?DL = "deletion_order (preorder st (as_posix a))"
  from order_split[OF split] y obtain pre' x' post' where
    dl: "?DL = pre' @ x' # post'" and x: "x = as_posix x'"
    and post: "post = map as_posix post' @ [as_posix a]"
    by auto
  have "x' \<in> set ?DL" using dl by simp
  then obtain r where r: "descends st (as_posix a) r" "x' = Asset_init (fst r)" "as_posix x' = fst r"
    using listed_record[OF wf] by blast
  have xx: "Asset_init x = x'" using r x by simp
  from y post consider y' where "y' \<in> set post'" "y = as_posix y'" | "y = as_posix a" by auto
  then show ?thesis
  proof cases
    case 1
    have "y' \<in> set ?DL" using dl 1(1) by simp
    then obtain q :: "string \<times> string" where q: "y' = Asset_init (fst q)" "as_posix y' = fst q"
      using listed_record[OF wf, of y' "as_posix a"] by blast
    have "Asset_init y = y'" using q 1(2) by simp
    then show ?thesis using deletion_order_deeper_first[OF dl 1(1)] xx by simp
  next
    case 2
    then show ?thesis using descends_record[OF wf r(1)] xx r(2) by simp
  qed
qed

lemma order_children:
  assumes wf: "wf_store st"
    and split: "rmdir_order st a = pre @ f # post"
    and folder: "getAsset st f = Inr ''FOLDER''"
    and c: "c \<in> set (listAssets st f)"
  shows "fst c \<in> set pre"
proof -
  let ?DL = "deletion_order (preorder st (as_posix a))"
  have cm: "c \<in> set (assets st)" and cc: "child_of f (fst c)"
    using c by (simp_all add: listAssets_member)
  have ck: "canonical_id (fst c)" using wf_store_canonical[OF wf cm] .
  have cp: "as_posix (Asset_init (fst c)) = fst c" using canonical_as_posix[OF ck] .
  have cd: "length (parts (Asset_init (fst c))) = Suc (length (parts (Asset_init f)))"
    using child_of_canonical(2)[OF cc ck] .
  from order_split[OF split] show ?thesis
  proof (elim disjE conjE exE)
    assume f: "f = as_posix a" and pre: "pre = map as_posix ?DL"
    have "descends st (as_posix a) c" using c f descends.child by simp
    then have "Asset_init (fst c) \<in> set ?DL" using child_listed[OF wf] by blast
    then have "as_posix (Asset_init (fst c)) \<in> set pre" unfolding pre by simp
    then show ?thesis using cp by simp
  next
    fix pre' x' post'
    assume dl: "?DL = pre' @ x' # post'" and pre: "pre = map as_posix pre'"
      and f: "f = as_posix x'"
    have "x' \<in> set ?DL" using dl by simp
    then obtain r where r: "descends st (as_posix a) r" "r \<in> set (assets st)"
        "x' = Asset_init (fst r)" "as_posix x' = fst r"
      using listed_record[OF wf] by blast
    have fr: "fst r = f" using r(4) f by simp
    have d: "distinct (map fst (assets st))" using wf by (simp add: wf_store_def)
    have "map_of (assets st) f = Some ''FOLDER''"
      using folder by (auto simp: getAsset_def split: option.splits)
    then have "(f, ''FOLDER'') \<in> set (assets st)" using map_of_eq_Some_iff[OF d] by simp
    moreover have "(f, snd r) \<in> set (assets st)" using r(2) fr by (cases r) auto
    ultimately have "snd r = ''FOLDER''"
      using d by (meson eq_key_imp_eq_value)
    then have "descends st (as_posix a) c"
      using descends.deeper[OF r(1)] c fr by simp
    then have "Asset_init (fst c) \<in> set ?DL" using child_listed[OF wf] by blast
    then consider "Asset_init (fst c) \<in> set pre'" | "Asset_init (fst c) = x'"
      | "Asset_init (fst c) \<in> set post'"
      unfolding dl by auto
    then show ?thesis
    proof cases
      case 1
      then have "as_posix (Asset_init (fst c)) \<in> set pre" unfolding pre by simp
      then show ?thesis using cp by simp
    next
      case 2
      then have "Asset_init (fst c) = Asset_init f" using r(3) fr by simp
      then show ?thesis using cd by simp
    next
      case 3
      have "x' = Asset_init f" using r(3) fr by simp
      then show ?thesis using deletion_order_deeper_first[OF dl 3] cd by simp
    qed
  qed
qed

text \<open>
  Claim C3: in \<open>rmdir\<close> with \<open>recursive=True\<close> and \<open>dry_run=False\<close> the delete requests go
  out in the order of the buckets, deeper levels before shallower ones, and the folder
  itself last; when a folder's turn comes, every child it has in the store has had its turn
  before. The requests sent are this order, up to the first one that fails.
\<close>

theorem rmdir_deletes_children_first:
  assumes wf: "wf_store st"
    and folder: "is_type st a ''FOLDER'' False = Inr True"
    and run: "rmdir st a True (Some False) = (r, st')"
  shows "(\<exists>k. calls st' = calls st @ map DeleteAsset (take k (rmdir_order st a)) \<and>
              (case r of Inr res \<Rightarrow> res = rmdir_order st a \<and> k = length (rmdir_order st a)
               | Inl e \<Rightarrow> k \<le> length (rmdir_order st a))) \<and>
         last (rmdir_order st a) = as_posix a \<and>
         (\<forall>pre x post y. rmdir_order st a = pre @ x # post \<and> y \<in> set post \<longrightarrow>
            length (parts (Asset_init y)) \<le> length (parts (Asset_init x))) \<and>
         (\<forall>pre f post c. rmdir_order st a = pre @ f # post \<and> getAsset st f = Inr ''FOLDER'' \<and>
            c \<in> set (listAssets st f) \<longrightarrow> fst c \<in> set pre)"
proof -
  have "delete_all False (deletion_order (preorder st (as_posix a)) @ [a]) ([], st) = (r, st')"
    using run rmdir_recursive[OF folder, of "Some False"] by simp
  note live = delete_all_live[OF this]
  have e: "map as_posix (deletion_order (preorder st (as_posix a)) @ [a]) = rmdir_order st a"
    and l: "length (deletion_order (preorder st (as_posix a)) @ [a]) = length (rmdir_order st a)"
    by (simp_all add: rmdir_order_def)
  have 1: "\<exists>k. calls st' = calls st @ map DeleteAsset (take k (rmdir_order st a)) \<and>
              (case r of Inr res \<Rightarrow> res = rmdir_order st a \<and> k = length (rmdir_order st a)
               | Inl e \<Rightarrow> k \<le> length (rmdir_order st a))"
    using live unfolding e l append_Nil .
  have 2: "last (rmdir_order st a) = as_posix a" by (simp add: rmdir_order_def)
  from 1 2 order_depth[OF wf] order_children[OF wf] show ?thesis by blast
qed


theorem rmdir_deletes_children_first_witness:
  "wf_store example_store \<and>
   is_type example_store (Asset_init ''projects/p/assets/F'') ''FOLDER'' False = Inr True \<and>
   rmdir example_store (Asset_init ''projects/p/assets/F'') True (Some False)
     = (Inr [''projects/p/assets/F/b/c'', ''projects/p/assets/F/a'', ''projects/p/assets/F/b'',
             ''projects/p/assets/F/d'', ''projects/p/assets/F''],
        \<lparr>assets = [], refused = [],
         calls = [DeleteAsset ''projects/p/assets/F/b/c'', DeleteAsset ''projects/p/assets/F/a'',
                  DeleteAsset ''projects/p/assets/F/b'', DeleteAsset ''projects/p/assets/F/d'',
                  DeleteAsset ''projects/p/assets/F'']\<rparr>) \<and>
   last (rmdir_order example_store (Asset_init ''projects/p/assets/F''))
     = as_posix (Asset_init ''projects/p/assets/F'')"
proof -
  let ?a = "Asset_init ''projects/p/assets/F''"
  have w: "wf_store example_store" by code_simp
  have h: "is_type example_store ?a ''FOLDER'' False = Inr True" by code_simp
  have run: "rmdir example_store ?a True (Some False)
     = (Inr [''projects/p/assets/F/b/c'', ''projects/p/assets/F/a'', ''projects/p/assets/F/b'',
             ''projects/p/assets/F/d'', ''projects/p/assets/F''],
        \<lparr>assets = [], refused = [],
         calls = [DeleteAsset ''projects/p/assets/F/b/c'', DeleteAsset ''projects/p/assets/F/a'',
                  DeleteAsset ''projects/p/assets/F/b'', DeleteAsset ''projects/p/assets/F/d'',
                  DeleteAsset ''projects/p/assets/F'']\<rparr>)"
    by code_simp
  have "last (rmdir_order example_store ?a) = as_posix ?a"
    using rmdir_deletes_children_first[OF w h run] by blast
  then show ?thesis using w h run by blast
qed

section \<open>Creating a folder without its parents\<close>

lemma exists_quiet: "exists st a False = Inr True \<or> exists st a False = Inr False"
  by (simp add: exists_def split: sum.splits)

lemma last_filter_split:
  assumes "filter P xs \<noteq> []"
  shows "\<exists>ys zs. xs = ys @ last (filter P xs) # zs \<and> P (last (filter P xs)) \<and>
                 list_all (\<lambda>z. \<not> P z) zs"
  using assms
proof (induction xs rule: rev_induct)
  case Nil
  then show ?case by simp
next
  case (snoc x xs)
  show ?case
  proof (cases "P x")
    case True
    then show ?thesis by (intro exI[of _ xs] exI[of _ "[]"]) simp
  next
    case False
    then have "filter P xs \<noteq> []" using snoc.prems by simp
    from snoc.IH[OF this] obtain ys zs where
      "xs = ys @ last (filter P xs) # zs" "P (last (filter P xs))" "list_all (\<lambda>z. \<not> P z) zs"
      by blast
    then show ?thesis using False by (intro exI[of _ ys] exI[of _ "zs @ [x]"]) simp
  qed
qed

text \<open>
  Claim C6: \<open>mkdir\<close> with \<open>parents=False\<close> on an absolute path for which more than one
  entry needs creating raises the error that names the last entry of \<open>to_be_created\<close>,
  and sends no request: the store is as it was. The entry named is a parent of the path
  that does not exist, and every parent above it exists. (A path that exists, with
  \<open>exist_ok=False\<close>, is refused by the check before this one.)
\<close>

theorem mkdir_without_parents:
  assumes "is_absolute a False = Inr True"
    and "1 < length (to_be_created st a)"
    and "exists st a False = Inr False \<or> exist_ok"
  shows "mkdir st a False exist_ok
           = (Inl (ValueError (''Parent Asset \"'' @ as_posix (last (to_be_created st a))
                               @ ''\" does not exist.'')), st) \<and>
         exists st (last (to_be_created st a)) False = Inr False \<and>
         (\<exists>below above. parents a = below @ last (to_be_created st a) # above \<and>
            list_all (\<lambda>z. exists st z False = Inr True) above)"
proof -
  let ?P = "\<lambda>p. exists st p False = Inr False"
  let ?missing = "filter ?P (parents a)"
  have abs: "is_absolute a True = Inr True"
    using assms(1) by (auto simp: is_absolute_def split: if_splits)
  have guard: "\<not> (exists st a False = Inr True \<and> \<not> exist_ok)"
    using assms(3) by auto
  have 1: "mkdir st a False exist_ok
           = (Inl (ValueError (''Parent Asset \"'' @ as_posix (last (to_be_created st a))
                               @ ''\" does not exist.'')), st)"
    using abs guard assms(2) by (simp add: mkdir_def)
  have ne: "?missing \<noteq> []"
    using assms(2) by (auto simp: to_be_created_def Let_def split: if_splits)
  then have l: "last (to_be_created st a) = last ?missing"
    by (simp add: to_be_created_def Let_def)
  from last_filter_split[OF ne] obtain ys zs where
    s: "parents a = ys @ last ?missing # zs" "?P (last ?missing)" "list_all (\<lambda>z. \<not> ?P z) zs"
    by blast
  have "list_all (\<lambda>z. exists st z False = Inr True) zs"
    using s(3) exists_quiet[of st] by (auto simp: list_all_iff)
  then show ?thesis using 1 s(1,2) l by auto
qed

theorem mkdir_without_parents_witness:
  "is_absolute (Asset_init ''projects/p/assets/G/x/y'') False = Inr True \<and>
   1 < length (to_be_created example_store (Asset_init ''projects/p/assets/G/x/y'')) \<and>
   mkdir example_store (Asset_init ''projects/p/assets/G/x/y'') False False
     = (Inl (ValueError ''Parent Asset \"projects/p/assets/G\" does not exist.''), example_store)"
proof -
  let ?a = "Asset_init ''projects/p/assets/G/x/y''"
  have h1: "is_absolute ?a False = Inr True" by code_simp
  have tbc: "to_be_created example_store ?a
     = [Asset_init ''projects/p/assets/G/x/y'', Asset_init ''projects/p/assets/G/x'',
        Asset_init ''projects/p/assets/G'']"
    by code_simp
  have h2: "1 < length (to_be_created example_store ?a)" unfolding tbc by simp
  have h3: "exists example_store ?a False = Inr False \<or> False" by code_simp
  have "mkdir example_store ?a False False
           = (Inl (ValueError (''Parent Asset \"'' @ as_posix (last (to_be_created example_store ?a))
                               @ ''\" does not exist.'')), example_store)"
    using mkdir_without_parents[OF h1 h2 h3] by blast
  also have "as_posix (last (to_be_created example_store ?a)) = ''projects/p/assets/G''"
    unfolding tbc by code_simp
  finally show ?thesis using h1 h2 by simp
qed

section \<open>Moving\<close>

text \<open>
  A call that may not return: \<open>None\<close> when the recursion is deeper than the fuel allows,
  otherwise the value or the exception, with the store as the call left it.
\<close>

type_synonym 'a outcome = "((error + 'a) \<times> remote) option"

text \<open>A \<open>for\<close> loop: the body runs for each element in turn; the first exception ends it.\<close>

fun for_each :: "('a \<Rightarrow> remote \<Rightarrow> unit outcome) \<Rightarrow> 'a list \<Rightarrow> remote \<Rightarrow> unit outcome" where
  "for_each body [] st = Some (Inr (), st)"
| "for_each body (x # xs) st =
     (case body x st of
        None \<Rightarrow> None
      | Some (Inl e, st') \<Rightarrow> Some (Inl e, st')
      | Some (Inr u, st') \<Rightarrow> for_each body xs st')"

text \<open>
  \<open>move\<close>. The first argument bounds the depth of the recursion. Every call ends with
  \<open>self.unlink()\<close>: a leaf is deleted right after its copy, a folder after its children
  have been moved.
\<close>

fun move :: "nat \<Rightarrow> remote \<Rightarrow> Asset \<Rightarrow> Asset \<Rightarrow> bool \<Rightarrow> Asset outcome" where
  "move 0 st self new_asset overwrite = None"
| "move (Suc n) st self new_asset overwrite =
     (if exists st new_asset False = Inr True \<and> \<not> overwrite
      then Some (Inl (ValueError (''Asset '' @ as_posix new_asset @ '' already exists.'')), st)
      else
        (case mkdir st (parent new_asset) True True of
           (Inl e, st1) \<Rightarrow> Some (Inl e, st1)
         | (Inr p, st1) \<Rightarrow>
             (case is_folder st1 self False of
                Inl e \<Rightarrow> Some (Inl e, st1)
              | Inr folder \<Rightarrow>
                  (case
                     (if folder then
                        (case mkdir st1 new_asset True True of
                           (Inl e, st2) \<Rightarrow> Some (Inl e, st2)
                         | (Inr q, st2) \<Rightarrow>
                             (case iterdir st2 self False of
                                Inl e \<Rightarrow> Some (Inl e, st2)
                              | Inr children \<Rightarrow>
                                  for_each
                                    (\<lambda>asset s.
                                       case relative_to (path asset) (path self) of
                                         Inl e \<Rightarrow> Some (Inl e, s)
                                       | Inr rel \<Rightarrow>
                                           (case move n s asset
                                                   (truediv new_asset (path_str rel)) overwrite of
                                              None \<Rightarrow> None
                                            | Some (Inl e, s') \<Rightarrow> Some (Inl e, s')
                                            | Some (Inr r, s') \<Rightarrow> Some (Inr (), s')))
                                    children st2))
                      else Some (copyAsset st1 (as_posix self) (as_posix new_asset)))
                   of
                     None \<Rightarrow> None
                   | Some (Inl e, st3) \<Rightarrow> Some (Inl e, st3)
                   | Some (Inr u, st3) \<Rightarrow>
                       (case unlink st3 self of
                          (Inl e, st4) \<Rightarrow> Some (Inl e, st4)
                        | (Inr u, st4) \<Rightarrow> Some (Inr new_asset, st4))))))"

text \<open>A folder \<open>A\<close> with two leaves, in a store that refuses the copy of the second.\<close>

definition move_store :: remote where
  "move_store =
     \<lparr>assets = [(''projects/p/assets'', ''FOLDER''),
                (''projects/p/assets/A'', ''FOLDER''),
                (''projects/p/assets/A/x'', ''IMAGE''),
                (''projects/p/assets/A/y'', ''IMAGE'')],
      refused = [CopyAsset ''projects/p/assets/A/y'' ''projects/p/assets/B/y''], calls = []\<rparr>"



subsection \<open>Identifiers below an identifier\<close>

text \<open>
  \<open>under s i\<close>: the identifier \<open>i\<close> is \<open>s\<close> or lies below it. \<open>relocate s d i\<close> is the
  identifier that an asset \<open>i\<close> below \<open>s\<close> gets when \<open>s\<close> is moved to \<open>d\<close>.
\<close>

definition under :: "string \<Rightarrow> string \<Rightarrow> bool" where
  "under s i = (i = s \<or> startswith i (s @ ''/''))"

definition relocate :: "string \<Rightarrow> string \<Rightarrow> string \<Rightarrow> string" where
  "relocate s d i = d @ drop (length s) i"

lemma under_refl: "under s s"
  by (simp add: under_def)

lemma under_iff: "under s i \<longleftrightarrow> i = s \<or> (\<exists>r. i = s @ CHR ''/'' # r)"
proof -
  have "startswith i (s @ ''/'') \<longleftrightarrow> (\<exists>r. i = s @ CHR ''/'' # r)"
  proof
    assume "startswith i (s @ ''/'')"
    then have "take (Suc (length s)) i = s @ ''/''" by (simp add: startswith_def)
    then have "i = (s @ ''/'') @ drop (Suc (length s)) i" by (metis append_take_drop_id)
    then show "\<exists>r. i = s @ CHR ''/'' # r" by auto
  next
    assume "\<exists>r. i = s @ CHR ''/'' # r"
    then show "startswith i (s @ ''/'')" by (auto simp: startswith_def)
  qed
  then show ?thesis by (simp add: under_def)
qed

lemma under_trans: "under a b \<Longrightarrow> under b c \<Longrightarrow> under a c"
  by (auto simp: under_iff)

lemma under_length: "under s i \<Longrightarrow> length s \<le> length i"
  by (auto simp: under_iff)

lemma under_antisym: "under a b \<Longrightarrow> under b a \<Longrightarrow> a = b"
  by (auto simp: under_iff)

lemma under_comparable:
  assumes "under a i" and "under b i"
  shows "under a b \<or> under b a"
proof -
  have pre: "under x y" if l: "length x \<le> length y" and ux: "under x i" and uy: "under y i" for x y
  proof (cases "x = y")
    case True then show ?thesis by (simp add: under_refl)
  next
    case False
    from ux have xi: "take (length x) i = x" by (auto simp: under_iff)
    from uy have yi: "take (length y) i = y" by (auto simp: under_iff)
    have xy: "take (length x) y = x" using xi yi l by (metis min.absorb1 take_take)
    have lt: "length x < length y" using False xy l by (metis le_neq_implies_less take_all order_refl)
    then have "x \<noteq> i" using under_length[OF uy] by auto
    then obtain r where r: "i = x @ CHR ''/'' # r" using ux by (auto simp: under_iff)
    have "y ! length x = i ! length x" using yi lt by (metis nth_take)
    then have "y ! length x = CHR ''/''" using r by simp
    moreover have "y = take (length x) y @ y ! length x # drop (Suc (length x)) y"
      using lt by (simp add: id_take_nth_drop[symmetric])
    ultimately have "y = x @ CHR ''/'' # drop (Suc (length x)) y" using xy by simp
    then show ?thesis unfolding under_iff by blast
  qed
  show ?thesis using pre[of a b] pre[of b a] assms by (cases "length a \<le> length b") auto
qed

lemma child_of_iff:
  "child_of f c \<longleftrightarrow> (\<exists>name. c = f @ CHR ''/'' # name \<and> name \<noteq> [] \<and> CHR ''/'' \<notin> set name)"
proof
  assume c: "child_of f c"
  let ?name = "drop (length f + 1) c"
  from c have t: "take (length f + 1) c = f @ ''/''" and n: "?name \<noteq> []" "CHR ''/'' \<notin> set ?name"
    by (auto simp: child_of_def startswith_def Let_def)
  have "c = take (length f + 1) c @ ?name" by simp
  then have "c = (f @ ''/'') @ ?name" unfolding t .
  then show "\<exists>name. c = f @ CHR ''/'' # name \<and> name \<noteq> [] \<and> CHR ''/'' \<notin> set name"
    using n by auto
next
  assume "\<exists>name. c = f @ CHR ''/'' # name \<and> name \<noteq> [] \<and> CHR ''/'' \<notin> set name"
  then show "child_of f c" by (auto simp: child_of_def startswith_def Let_def)
qed

lemma under_child:
  assumes "CHR ''/'' \<notin> set name"
  shows "under a (d @ CHR ''/'' # name) \<longleftrightarrow> a = d @ CHR ''/'' # name \<or> under a d"
proof
  assume u: "under a (d @ CHR ''/'' # name)"
  have "under d (d @ CHR ''/'' # name)" by (auto simp: under_iff)
  from under_comparable[OF u this] show "a = d @ CHR ''/'' # name \<or> under a d"
  proof
    assume "under a d" then show ?thesis by simp
  next
    assume da: "under d a"
    show ?thesis
    proof (cases "a = d")
      case True then show ?thesis by (simp add: under_refl)
    next
      case False
      then obtain r where r: "a = d @ CHR ''/'' # r" using da by (auto simp: under_iff)
      from u have "a = d @ CHR ''/'' # name \<or> (\<exists>q. d @ CHR ''/'' # name = a @ CHR ''/'' # q)"
        by (auto simp: under_iff)
      then show ?thesis
      proof
        assume "a = d @ CHR ''/'' # name" then show ?thesis by simp
      next
        assume "\<exists>q. d @ CHR ''/'' # name = a @ CHR ''/'' # q"
        then obtain q where "d @ CHR ''/'' # name = a @ CHR ''/'' # q" by blast
        then have "name = r @ CHR ''/'' # q" using r by simp
        then show ?thesis using assms by simp
      qed
    qed
  qed
next
  assume "a = d @ CHR ''/'' # name \<or> under a d"
  moreover have "under d (d @ CHR ''/'' # name)" by (auto simp: under_iff)
  ultimately show "under a (d @ CHR ''/'' # name)" using under_trans under_refl by blast
qed

lemma under_siblings:
  assumes "CHR ''/'' \<notin> set n1" and "CHR ''/'' \<notin> set n2"
    and "under (s @ CHR ''/'' # n1) i" and "under (s @ CHR ''/'' # n2) i"
  shows "n1 = n2"
proof -
  from under_comparable[OF assms(3,4)]
  have "under (s @ CHR ''/'' # n1) (s @ CHR ''/'' # n2) \<or> under (s @ CHR ''/'' # n2) (s @ CHR ''/'' # n1)" .
  then show ?thesis
  proof
    assume "under (s @ CHR ''/'' # n1) (s @ CHR ''/'' # n2)"
    then have "s @ CHR ''/'' # n1 = s @ CHR ''/'' # n2 \<or> under (s @ CHR ''/'' # n1) s"
      using under_child[OF assms(2)] by simp
    then show ?thesis using under_length[of "s @ CHR ''/'' # n1" s] by auto
  next
    assume "under (s @ CHR ''/'' # n2) (s @ CHR ''/'' # n1)"
    then have "s @ CHR ''/'' # n2 = s @ CHR ''/'' # n1 \<or> under (s @ CHR ''/'' # n2) s"
      using under_child[OF assms(1)] by simp
    then show ?thesis using under_length[of "s @ CHR ''/'' # n2" s] by auto
  qed
qed

lemma relocate_child:
  "under (s @ CHR ''/'' # n) i \<Longrightarrow>
   relocate (s @ CHR ''/'' # n) (d @ CHR ''/'' # n) i = relocate s d i"
  by (auto simp: under_iff relocate_def)

lemma relocate_under:
  assumes "under s i"
  shows "under (d @ CHR ''/'' # n) (relocate s d i) \<longleftrightarrow> under (s @ CHR ''/'' # n) i"
proof -
  from assms consider "i = s" | r where "i = s @ CHR ''/'' # r" by (auto simp: under_iff)
  then show ?thesis
  proof cases
    case 1
    then show ?thesis
      using under_length[of "d @ CHR ''/'' # n" d] under_length[of "s @ CHR ''/'' # n" s]
      by (auto simp: relocate_def)
  next
    case 2
    then show ?thesis by (simp add: relocate_def under_iff)
  qed
qed

lemma relocate_under_d: "under s i \<Longrightarrow> under d (relocate s d i)"
  by (auto simp: under_iff relocate_def)


subsection \<open>What one request changes\<close>

lemma put_set: "set (put k v xs) \<subseteq> insert (k, v) (set xs)"
  by (induction xs) auto

lemma put_member: "(k, v) \<in> set (put k v xs)"
  by (induction xs) auto

lemma put_other: "x \<in> set xs \<Longrightarrow> fst x \<noteq> k \<Longrightarrow> x \<in> set (put k v xs)"
  by (induction xs) auto

lemma put_keys: "fst ` set (put k v xs) = insert k (fst ` set xs)"
  by (induction xs) auto

lemma put_distinct: "distinct (map fst xs) \<Longrightarrow> distinct (map fst (put k v xs))"
proof (induction xs)
  case Nil then show ?case by simp
next
  case (Cons x xs)
  then show ?case using put_keys[of k v xs] by (auto simp: image_iff)
qed

lemma createAsset_effect:
  assumes "createAsset st i = (r, st')"
  shows "((\<exists>e. r = Inl e) \<and> assets st' = assets st) \<or>
         (r = Inr () \<and> i \<notin> fst ` set (assets st) \<and> assets st' = assets st @ [(i, ''FOLDER'')])"
  using assms
  by (auto simp: createAsset_def Let_def map_of_eq_None_iff split: if_splits)

lemma copyAsset_effect:
  assumes "copyAsset st src dst = (r, st')"
  shows "((\<exists>e. r = Inl e) \<and> assets st' = assets st) \<or>
         (\<exists>t. r = Inr () \<and> map_of (assets st) src = Some t \<and> assets st' = put dst t (assets st))"
  using assms
  by (auto simp: copyAsset_def Let_def split: if_splits option.splits)

lemma deleteAsset_effect:
  assumes "deleteAsset st i = (r, st')"
  shows "((\<exists>e. r = Inl e) \<and> assets st' = assets st) \<or>
         (r = Inr () \<and> assets st' = filter (\<lambda>x. fst x \<noteq> i) (assets st))"
  using assms
  by (auto simp: deleteAsset_def Let_def split: if_splits)

lemma wf_store_assets: "assets st' = assets st \<Longrightarrow> wf_store st' = wf_store st"
  by (simp add: wf_store_def)

lemma exists_iff: "exists st a False = Inr (as_posix a \<in> fst ` set (assets st))"
  by (auto simp: exists_def getAsset_def map_of_eq_None_iff split: option.splits sum.splits)
     (metis domI dom_map_of_conv_image_fst image_eqI fst_conv)+

lemma canonical_join:
  assumes "list_all valid_part cs" and "cs \<noteq> []"
  shows "canonical_id (join_sep cs)" and "as_posix (Asset (PurePosixPath [] cs)) = join_sep cs"
proof -
  have "split_sep (join_sep cs) = cs"
    using assms by (intro split_join) (auto simp: list_all_iff valid_part_def)
  then show "canonical_id (join_sep cs)" using assms(1) by (simp add: canonical_id_def)
  show "as_posix (Asset (PurePosixPath [] cs)) = join_sep cs"
    using assms join_sep_Nil_iff[OF assms(1)] by (simp add: as_posix_def path_str_def)
qed

lemma create_all_effect:
  assumes "create_all ps st = (r, st')"
  shows "set (assets st) \<subseteq> set (assets st') \<and>
         fst ` set (assets st') \<subseteq> fst ` set (assets st) \<union> as_posix ` set ps \<and>
         (distinct (map fst (assets st)) \<longrightarrow> distinct (map fst (assets st'))) \<and>
         (r = Inr () \<longrightarrow> as_posix ` set ps \<subseteq> fst ` set (assets st'))"
  using assms
proof (induction ps arbitrary: st)
  case Nil
  then show ?case by auto
next
  case (Cons p ps)
  obtain c st1 where c: "createAsset st (as_posix p) = (c, st1)" by (cases "createAsset st (as_posix p)")
  from createAsset_effect[OF c] show ?case
  proof
    assume f: "(\<exists>e. c = Inl e) \<and> assets st1 = assets st"
    then have "r = c" "st' = st1" using Cons.prems c by auto
    then show ?thesis using f by auto
  next
    assume s: "c = Inr () \<and> as_posix p \<notin> fst ` set (assets st) \<and>
               assets st1 = assets st @ [(as_posix p, ''FOLDER'')]"
    then have "create_all ps st1 = (r, st')" using Cons.prems c by simp
    from Cons.IH[OF this] have
      1: "set (assets st1) \<subseteq> set (assets st')"
      and 2: "fst ` set (assets st') \<subseteq> fst ` set (assets st1) \<union> as_posix ` set ps"
      and 3: "distinct (map fst (assets st1)) \<longrightarrow> distinct (map fst (assets st'))"
      and 4: "r = Inr () \<longrightarrow> as_posix ` set ps \<subseteq> fst ` set (assets st')"
      by blast+
    have a1: "set (assets st1) = insert (as_posix p, ''FOLDER'') (set (assets st))"
      and k1: "fst ` set (assets st1) = insert (as_posix p) (fst ` set (assets st))"
      using s by auto
    have d1: "distinct (map fst (assets st)) \<longrightarrow> distinct (map fst (assets st1))"
      using s by auto
    have "as_posix p \<in> fst ` set (assets st1)" using k1 by simp
    then have m: "as_posix p \<in> fst ` set (assets st')" using 1 by auto
    have "set (assets st) \<subseteq> set (assets st')" using 1 a1 by auto
    moreover have "fst ` set (assets st') \<subseteq> fst ` set (assets st) \<union> as_posix ` set (p # ps)"
      using 2 k1 by auto
    moreover have "distinct (map fst (assets st)) \<longrightarrow> distinct (map fst (assets st'))"
      using 3 d1 by blast
    moreover have "r = Inr () \<longrightarrow> as_posix ` set (p # ps) \<subseteq> fst ` set (assets st')"
      using 4 m by auto
    ultimately show ?thesis by blast
  qed
qed

lemma to_be_created_canonical:
  assumes "is_absolute (Asset_init z) False = Inr True"
    and "p \<in> set (to_be_created st (Asset_init z))"
  shows "canonical_id (as_posix p)"
proof -
  obtain owner rest where v: "list_all valid_part (owner # rest)"
    and a: "Asset_init z = Asset (PurePosixPath [] (''projects'' # owner # ''assets'' # rest))"
    using absolute_shape[OF assms(1)] by blast
  let ?cs = "''projects'' # owner # ''assets'' # rest"
  have vp: "valid_part ''projects''" "valid_part ''assets''" by (simp_all add: valid_part_def)
  have vcs: "list_all valid_part ?cs" using v vp by simp
  have vo: "valid_part owner" using v by simp
  from assms(2) have "p = Asset_init z \<or> p \<in> set (parents (Asset_init z))"
    by (auto simp: to_be_created_def Let_def split: if_splits)
  then show ?thesis
  proof
    assume "p = Asset_init z"
    then show ?thesis using canonical_join[OF vcs] a by simp
  next
    assume "p \<in> set (parents (Asset_init z))"
    then obtain i where i: "i < length rest - 1"
      and p: "p = Asset (PurePosixPath [] (take (2 + length rest - i) ?cs))"
      unfolding a parents_of_absolute[OF vo] by auto
    have "set (take (2 + length rest - i) ?cs) \<subseteq> set ?cs" by (rule set_take_subset)
    then have "list_all valid_part (take (2 + length rest - i) ?cs)"
      using vcs unfolding list_all_iff by blast
    moreover have "take (2 + length rest - i) ?cs \<noteq> []" using i by simp
    ultimately show ?thesis using canonical_join p by simp
  qed
qed

lemma mkdir_effect:
  assumes "mkdir st (Asset_init z) with_parents exist_ok = (r, st')"
  shows "set (assets st) \<subseteq> set (assets st') \<and>
         (wf_store st \<longrightarrow> wf_store st') \<and>
         (\<forall>q. r = Inr q \<longrightarrow> as_posix (Asset_init z) \<in> fst ` set (assets st'))"
proof (cases "is_absolute (Asset_init z) False = Inr True")
  case False
  then have "is_absolute (Asset_init z) True
           = Inl (ValueError (''Asset '' @ as_posix (Asset_init z) @ '' is not absolute.''))"
    by (auto simp: is_absolute_def)
  then show ?thesis using assms by (auto simp: mkdir_def)
next
  case True
  let ?a = "Asset_init z"
  let ?tbc = "to_be_created st ?a"
  have abs: "is_absolute ?a True = Inr True" using True by (auto simp: is_absolute_def split: if_splits)
  consider "st' = st" "\<exists>e. r = Inl e"
    | c where "create_all (rev ?tbc) st = (c, st')" "(\<exists>e. r = Inl e \<and> c = Inl e) \<or> (r = Inr ?a \<and> c = Inr ())"
    using assms abs by (auto simp: mkdir_def split: if_splits prod.splits sum.splits)
  then show ?thesis
  proof cases
    case 1 then show ?thesis by auto
  next
    case 2
    note eff = create_all_effect[OF 2(1)]
    have sub: "set (assets st) \<subseteq> set (assets st')" using eff by simp
    have wf: "wf_store st'" if w: "wf_store st"
    proof -
      have d: "distinct (map fst (assets st'))" using eff w by (simp add: wf_store_def)
      have "canonical_id i" if "i \<in> fst ` set (assets st')" for i
      proof -
        from that eff have "i \<in> fst ` set (assets st) \<or> i \<in> as_posix ` set ?tbc" by auto
        then show ?thesis
          using w to_be_created_canonical[OF True] by (auto simp: wf_store_def list_all_iff)
      qed
      then show ?thesis using d by (auto simp: wf_store_def list_all_iff)
    qed
    have ex: "as_posix ?a \<in> fst ` set (assets st')" if "r = Inr q" for q
    proof (cases "exists st ?a False = Inr False")
      case True
      then have "?a \<in> set ?tbc" by (simp add: to_be_created_def Let_def)
      moreover have "c = Inr ()" using 2(2) that by auto
      ultimately show ?thesis using eff by auto
    next
      case False
      then have "as_posix ?a \<in> fst ` set (assets st)" by (simp add: exists_iff)
      then show ?thesis using sub by auto
    qed
    show ?thesis using sub wf ex by blast
  qed
qed


subsection \<open>The assets a move recurses on\<close>

lemma parent_Asset_init:
  assumes "canonical_id d"
  shows "parent (Asset_init d) = Asset_init (join_sep (butlast (split_sep d)))"
proof -
  have v: "list_all valid_part (butlast (split_sep d))"
    using assms by (auto simp: canonical_id_def list_all_iff dest: in_set_butlastD)
  have "parent (Asset_init d) = Asset (PurePosixPath [] (butlast (split_sep d)))"
    by (simp add: parent_def canonical_Asset_init[OF assms] path_parent_def Asset_of_path_rootless)
  moreover have "Asset_init (join_sep (butlast (split_sep d)))
               = Asset (PurePosixPath [] (butlast (split_sep d)))"
    by (simp add: Asset_init_def parse_join[OF v] Asset_of_path_rootless)
  ultimately show ?thesis by simp
qed

lemma child_paths:
  assumes s: "canonical_id s" and d: "canonical_id d"
    and c: "child_of s c" and k: "canonical_id c"
  shows "\<exists>name. c = s @ CHR ''/'' # name \<and> CHR ''/'' \<notin> set name \<and>
           relocate s d c = d @ CHR ''/'' # name \<and>
           canonical_id (relocate s d c) \<and>
           relative_to (path (Asset_init c)) (path (Asset_init s)) = Inr (PurePosixPath [] [name]) \<and>
           truediv (Asset_init d) (path_str (PurePosixPath [] [name])) = Asset_init (relocate s d c)"
proof -
  from c obtain name where n: "c = s @ CHR ''/'' # name" "name \<noteq> []" "CHR ''/'' \<notin> set name"
    using child_of_iff by blast
  have sc: "split_sep c = split_sep s @ [name]"
    using split_sep_app[of s name] split_sep_single[OF n(3)] n(1) by simp
  have vn: "valid_part name" using k sc by (simp add: canonical_id_def)
  have r: "relocate s d c = d @ CHR ''/'' # name" by (simp add: relocate_def n(1))
  have sd: "split_sep (d @ CHR ''/'' # name) = split_sep d @ [name]"
    using split_sep_app[of d name] split_sep_single[OF n(3)] by simp
  have kr: "canonical_id (relocate s d c)"
    using d vn by (simp add: r canonical_id_def sd)
  have ne: "split_sep s \<noteq> []" by (rule split_sep_nonempty)
  have rel: "relative_to (path (Asset_init c)) (path (Asset_init s)) = Inr (PurePosixPath [] [name])"
    using ne by (simp add: canonical_Asset_init[OF k] canonical_Asset_init[OF s] sc
        relative_to_def path_parts_def Let_def)
  have pn: "parse_path name = PurePosixPath [] [name]"
    using parse_join[of "[name]"] vn by simp
  have "truediv (Asset_init d) (path_str (PurePosixPath [] [name]))
      = Asset (PurePosixPath [] (split_sep d @ [name]))"
    using n(2) by (simp add: truediv_def path_str_def path_join_def pn
        canonical_Asset_init[OF d] Asset_of_path_rootless)
  moreover have "Asset_init (relocate s d c) = Asset (PurePosixPath [] (split_sep d @ [name]))"
    using canonical_Asset_init[OF kr] by (simp add: r sd)
  ultimately show ?thesis using n r kr rel by auto
qed

lemma unrelated_children:
  assumes "\<not> under s d" and "\<not> under d s" and "CHR ''/'' \<notin> set name"
  shows "\<not> under (s @ CHR ''/'' # name) (d @ CHR ''/'' # name)"
    and "\<not> under (d @ CHR ''/'' # name) (s @ CHR ''/'' # name)"
proof -
  have ss: "under s (s @ CHR ''/'' # name)" and dd: "under d (d @ CHR ''/'' # name)"
    by (auto simp: under_iff)
  show "\<not> under (s @ CHR ''/'' # name) (d @ CHR ''/'' # name)"
  proof
    assume "under (s @ CHR ''/'' # name) (d @ CHR ''/'' # name)"
    then have "under s (d @ CHR ''/'' # name)" using ss under_trans by blast
    then show False using under_comparable[OF _ dd] assms by blast
  qed
  show "\<not> under (d @ CHR ''/'' # name) (s @ CHR ''/'' # name)"
  proof
    assume "under (d @ CHR ''/'' # name) (s @ CHR ''/'' # name)"
    then have "under d (s @ CHR ''/'' # name)" using dd under_trans by blast
    then show False using under_comparable[OF _ ss] assms by blast
  qed
qed


subsection \<open>What a move keeps\<close>

text \<open>
  \<open>frame\<close>: the records that are neither below the source nor below the destination are
  still there. \<open>no_loss\<close>: every record below the source that is not a folder is still at
  its identifier or is at the identifier it is moved to.
\<close>

definition frame :: "string \<Rightarrow> string \<Rightarrow> remote \<Rightarrow> remote \<Rightarrow> bool" where
  "frame s d st st' =
     (\<forall>x\<in>set (assets st). \<not> under s (fst x) \<and> \<not> under d (fst x) \<longrightarrow> x \<in> set (assets st'))"

definition no_loss :: "string \<Rightarrow> string \<Rightarrow> remote \<Rightarrow> remote \<Rightarrow> bool" where
  "no_loss s d st st' =
     (\<forall>x\<in>set (assets st). under s (fst x) \<and> snd x \<noteq> ''FOLDER'' \<longrightarrow>
        x \<in> set (assets st') \<or> (relocate s d (fst x), snd x) \<in> set (assets st'))"

definition move_ok :: "nat \<Rightarrow> bool \<Rightarrow> bool" where
  "move_ok n overwrite =
     (\<forall>st s d r st'.
        wf_store st \<longrightarrow> canonical_id s \<longrightarrow> canonical_id d \<longrightarrow> \<not> under s d \<longrightarrow> \<not> under d s \<longrightarrow>
        move n st (Asset_init s) (Asset_init d) overwrite = Some (r, st') \<longrightarrow>
        wf_store st' \<and> frame s d st st' \<and> no_loss s d st st' \<and>
        (\<forall>q. r = Inr q \<longrightarrow> q = Asset_init d \<and> s \<notin> fst ` set (assets st') \<and>
                            d \<in> fst ` set (assets st')))"

lemma move_children_keep:
  assumes ih: "move_ok n overwrite"
    and s: "canonical_id s" and d: "canonical_id d"
    and sd: "\<not> under s d" and ds: "\<not> under d s"
    and todo: "\<forall>x\<in>set todo. child_of s (fst x) \<and> canonical_id (fst x)"
    and dist: "distinct (map fst todo)"
    and wf: "wf_store st"
    and run: "for_each
                (\<lambda>asset s'.
                   case relative_to (path asset) (path (Asset_init s)) of
                     Inl e \<Rightarrow> Some (Inl e, s')
                   | Inr rel \<Rightarrow>
                       (case move n s' asset (truediv (Asset_init d) (path_str rel)) overwrite of
                          None \<Rightarrow> None
                        | Some (Inl e, s'') \<Rightarrow> Some (Inl e, s'')
                        | Some (Inr r, s'') \<Rightarrow> Some (Inr (), s'')))
                (map (\<lambda>x. Asset_init (fst x)) todo) st = Some (r, st')"
  shows "wf_store st' \<and>
         (\<forall>x\<in>set (assets st).
            (\<forall>m\<in>set todo. \<not> under (fst m) (fst x) \<and> \<not> under (relocate s d (fst m)) (fst x))
            \<longrightarrow> x \<in> set (assets st')) \<and>
         no_loss s d st st'"
  using todo dist wf run
proof (induction todo arbitrary: st)
  case Nil
  then show ?case by (auto simp: no_loss_def)
next
  case (Cons x todo)
  let ?c = "fst x"
  let ?c' = "relocate s d ?c"
  have xc: "child_of s ?c" "canonical_id ?c" using Cons.prems(1) by auto
  from child_paths[OF s d xc] obtain name where
    n: "?c = s @ CHR ''/'' # name" "CHR ''/'' \<notin> set name" "?c' = d @ CHR ''/'' # name"
    and kc': "canonical_id ?c'"
    and rel: "relative_to (path (Asset_init ?c)) (path (Asset_init s)) = Inr (PurePosixPath [] [name])"
    and td: "truediv (Asset_init d) (path_str (PurePosixPath [] [name])) = Asset_init ?c'"
    by blast
  have un: "\<not> under ?c ?c'" "\<not> under ?c' ?c"
    using unrelated_children[OF sd ds n(2)] n by simp_all
  have usc: "under s ?c" and udc': "under d ?c'" using n by (auto simp: under_iff)
  obtain o1 where o1: "move n st (Asset_init ?c) (Asset_init ?c') overwrite = o1" by simp
  show ?case
  proof (cases o1)
    case None
    then show ?thesis using Cons.prems(4) o1 rel td by simp
  next
    case (Some res)
    obtain r1 st1 where res: "res = (r1, st1)" by (cases res)
    have mv: "move n st (Asset_init ?c) (Asset_init ?c') overwrite = Some (r1, st1)"
      using o1 Some res by simp
    from ih[unfolded move_ok_def, rule_format, OF Cons.prems(3) xc(2) kc' un mv]
    have w1: "wf_store st1" and f1: "frame ?c ?c' st st1" and l1: "no_loss ?c ?c' st st1"
      by simp_all
    text \<open>After the head, a record below \<open>s\<close> that is not a folder is at its place or moved.\<close>
    have head: "y \<in> set (assets st1) \<or>
                ((relocate s d (fst y), snd y) \<in> set (assets st1) \<and> under ?c (fst y))"
      if y: "y \<in> set (assets st)" "under s (fst y)" "snd y \<noteq> ''FOLDER''" for y
    proof (cases "under ?c (fst y)")
      case True
      then have "y \<in> set (assets st1) \<or> (relocate ?c ?c' (fst y), snd y) \<in> set (assets st1)"
        using l1 y by (auto simp: no_loss_def)
      moreover have "relocate ?c ?c' (fst y) = relocate s d (fst y)"
        using relocate_child[of s name "fst y" d] True n by simp
      ultimately show ?thesis using True by auto
    next
      case False
      have "\<not> under ?c' (fst y)"
      proof
        assume "under ?c' (fst y)"
        then have "under d (fst y)" using udc' under_trans by blast
        then show False using under_comparable[OF y(2)] sd ds by blast
      qed
      then show ?thesis using f1 y(1) False by (auto simp: frame_def)
    qed
    show ?thesis
    proof (cases r1)
      case (Inl e)
      then have fin: "st' = st1" using Cons.prems(4) mv rel td by simp
      have "x0 \<in> set (assets st')"
        if "x0 \<in> set (assets st)"
          "\<forall>m\<in>set (x # todo). \<not> under (fst m) (fst x0) \<and> \<not> under (relocate s d (fst m)) (fst x0)"
        for x0
        using that f1 fin by (auto simp: frame_def)
      moreover have "no_loss s d st st'"
        unfolding no_loss_def fin using head by blast
      ultimately show ?thesis using w1 fin by blast
    next
      case (Inr q)
      then have rest: "for_each
                (\<lambda>asset s'.
                   case relative_to (path asset) (path (Asset_init s)) of
                     Inl e \<Rightarrow> Some (Inl e, s')
                   | Inr rel \<Rightarrow>
                       (case move n s' asset (truediv (Asset_init d) (path_str rel)) overwrite of
                          None \<Rightarrow> None
                        | Some (Inl e, s'') \<Rightarrow> Some (Inl e, s'')
                        | Some (Inr r, s'') \<Rightarrow> Some (Inr (), s'')))
                (map (\<lambda>x. Asset_init (fst x)) todo) st1 = Some (r, st')"
        using Cons.prems(4) mv rel td by simp
      have t2: "\<forall>x\<in>set todo. child_of s (fst x) \<and> canonical_id (fst x)"
        and d2: "distinct (map fst todo)" and notin: "?c \<notin> fst ` set todo"
        using Cons.prems(1,2) by auto
      from Cons.IH[OF t2 d2 w1 rest]
      have w2: "wf_store st'"
        and f2: "\<forall>x\<in>set (assets st1).
            (\<forall>m\<in>set todo. \<not> under (fst m) (fst x) \<and> \<not> under (relocate s d (fst m)) (fst x))
            \<longrightarrow> x \<in> set (assets st')"
        and l2: "no_loss s d st1 st'"
        by blast+
      have fr: "x0 \<in> set (assets st')"
        if "x0 \<in> set (assets st)"
          "\<forall>m\<in>set (x # todo). \<not> under (fst m) (fst x0) \<and> \<not> under (relocate s d (fst m)) (fst x0)"
        for x0
      proof -
        have "x0 \<in> set (assets st1)" using that f1 by (auto simp: frame_def)
        then show ?thesis using f2 that(2) by auto
      qed
      have nl: "y \<in> set (assets st') \<or> (relocate s d (fst y), snd y) \<in> set (assets st')"
        if y: "y \<in> set (assets st)" "under s (fst y)" "snd y \<noteq> ''FOLDER''" for y
      proof -
        from head[OF y] show ?thesis
        proof
          assume "y \<in> set (assets st1)"
          then show ?thesis using l2 y by (auto simp: no_loss_def)
        next
          assume moved: "(relocate s d (fst y), snd y) \<in> set (assets st1) \<and> under ?c (fst y)"
          let ?j = "relocate s d (fst y)"
          have uj: "under ?c' ?j" using relocate_under[OF y(2), of d name] moved n by simp
          have ujd: "under d ?j" using relocate_under_d[OF y(2)] .
          have "\<not> under (fst m) ?j \<and> \<not> under (relocate s d (fst m)) ?j" if m: "m \<in> set todo" for m
          proof -
            have mc: "child_of s (fst m)" "canonical_id (fst m)" using t2 m by auto
            from child_paths[OF s d mc] obtain nm where
              nm: "fst m = s @ CHR ''/'' # nm" "CHR ''/'' \<notin> set nm"
                  "relocate s d (fst m) = d @ CHR ''/'' # nm"
              by blast
            have a: "\<not> under (fst m) ?j"
            proof
              assume "under (fst m) ?j"
              moreover have "under s (fst m)" using nm by (auto simp: under_iff)
              ultimately have "under s ?j" using under_trans by blast
              then show False using under_comparable[OF _ ujd] sd ds by blast
            qed
            have b: "\<not> under (relocate s d (fst m)) ?j"
            proof
              assume "under (relocate s d (fst m)) ?j"
              then have "nm = name"
                using under_siblings[OF nm(2) n(2), of d ?j] uj nm(3) n(3) by simp
              then have "fst m = ?c" using nm n by simp
              then show False using notin m by (metis imageI)
            qed
            show ?thesis using a b by simp
          qed
          then have "(?j, snd y) \<in> set (assets st')" using f2 moved by force
          then show ?thesis by simp
        qed
      qed
      have "no_loss s d st st'" unfolding no_loss_def using nl by blast
      then show ?thesis using w2 fr by blast
    qed
  qed
qed


lemma adds_keep:
  assumes "set (assets st) \<subseteq> set (assets st')"
  shows "frame s d st st'" and "no_loss s d st st'"
  using assms by (auto simp: frame_def no_loss_def)

lemma unlink_effect:
  assumes "unlink st a = (r, st')"
  shows "((\<exists>e. r = Inl e) \<and> assets st' = assets st) \<or>
         (r = Inr () \<and> assets st' = filter (\<lambda>x. fst x \<noteq> as_posix a) (assets st))"
proof (cases "exists st a True")
  case (Inl e)
  then show ?thesis using assms by (auto simp: unlink_def)
next
  case (Inr b)
  then show ?thesis using assms deleteAsset_effect[of st "as_posix a" r st'] by (simp add: unlink_def)
qed

lemma is_folder_quiet:
  assumes "is_folder st a False = Inr b"
  shows "b = (map_of (assets st) (as_posix a) = Some ''FOLDER'')"
  using assms
  by (auto simp: is_folder_def is_type_def asset_type_def exists_def getAsset_def
      split: sum.splits option.splits if_splits)

lemma wf_store_filter:
  "wf_store st \<Longrightarrow> assets st' = filter P (assets st) \<Longrightarrow> wf_store st'"
  by (auto simp: wf_store_def list_all_iff distinct_map_filter)

lemma wf_store_put:
  "wf_store st \<Longrightarrow> canonical_id k \<Longrightarrow> assets st' = put k v (assets st) \<Longrightarrow> wf_store st'"
  using put_set[of k v "assets st"] put_distinct[of "assets st" k v]
  by (auto simp: wf_store_def list_all_iff)

lemma wf_store_unique:
  "wf_store st \<Longrightarrow> (i, t) \<in> set (assets st) \<Longrightarrow> map_of (assets st) i = Some t' \<Longrightarrow> t = t'"
  by (simp add: wf_store_def)

lemma listAssets_distinct: "wf_store st \<Longrightarrow> distinct (map fst (listAssets st f))"
  by (simp add: wf_store_def listAssets_def distinct_map_filter)


lemma move_ok_Suc:
  assumes ih: "move_ok n overwrite"
  shows "move_ok (Suc n) overwrite"
  unfolding move_ok_def
proof (intro allI impI)
  fix st s d r st'
  assume wf: "wf_store st" and s: "canonical_id s" and d: "canonical_id d"
    and sd: "\<not> under s d" and ds: "\<not> under d s"
    and mv: "move (Suc n) st (Asset_init s) (Asset_init d) overwrite = Some (r, st')"
  let ?S = "Asset_init s" and ?D = "Asset_init d"
  let ?goal = "wf_store st' \<and> frame s d st st' \<and> no_loss s d st st' \<and>
        (\<forall>q. r = Inr q \<longrightarrow> q = ?D \<and> s \<notin> fst ` set (assets st') \<and> d \<in> fst ` set (assets st'))"
  have ps: "as_posix ?S = s" and pd: "as_posix ?D = d"
    using canonical_as_posix s d by simp_all
  have neq: "s \<noteq> d" using sd under_refl by auto
  obtain z where z: "parent ?D = Asset_init z" using parent_Asset_init[OF d] by blast
  text \<open>A failure that only added records.\<close>
  have failed: ?goal if "set (assets st) \<subseteq> set (assets st')" "wf_store st'" "\<exists>e. r = Inl e"
    using that adds_keep[OF that(1), of s d] by auto
  show ?goal
  proof (cases "exists st ?D False = Inr True \<and> \<not> overwrite")
    case True
    then have "st' = st" "\<exists>e. r = Inl e" using mv by auto
    then show ?thesis using failed wf by simp
  next
    case False
    obtain m1 st1 where mk1: "mkdir st (Asset_init z) True True = (m1, st1)"
      by (cases "mkdir st (Asset_init z) True True")
    have sub1: "set (assets st) \<subseteq> set (assets st1)" and w1: "wf_store st1"
      using mkdir_effect[OF mk1] wf by auto
    show ?thesis
    proof (cases m1)
      case (Inl e)
      then have "st' = st1" "r = Inl e" using mv False mk1 z by auto
      then show ?thesis using failed sub1 w1 by simp
    next
      case m1: (Inr p1)
      show ?thesis
      proof (cases "is_folder st1 ?S False")
        case (Inl e)
        then have "st' = st1" "r = Inl e" using mv False mk1 z m1 by auto
        then show ?thesis using failed sub1 w1 by simp
      next
        case fo: (Inr folder)
        have ftype: "folder = (map_of (assets st1) s = Some ''FOLDER'')"
          using is_folder_quiet[OF fo] ps by simp
        show ?thesis
        proof (cases folder)
          case True
          obtain m2 st2 where mk2: "mkdir st1 ?D True True = (m2, st2)"
            by (cases "mkdir st1 ?D True True")
          have sub2: "set (assets st1) \<subseteq> set (assets st2)" and w2: "wf_store st2"
            and d2: "\<And>q. m2 = Inr q \<Longrightarrow> d \<in> fst ` set (assets st2)"
            using mkdir_effect[OF mk2] w1 pd by auto
          have sub02: "set (assets st) \<subseteq> set (assets st2)" using sub1 sub2 by blast
          show ?thesis
          proof (cases m2)
            case (Inl e)
            then have "st' = st2" "r = Inl e" using mv False mk1 z m1 fo True mk2 by auto
            then show ?thesis using failed sub02 w2 by simp
          next
            case m2: (Inr p2)
            show ?thesis
            proof (cases "iterdir st2 ?S False")
              case (Inl e)
              then have "st' = st2" "r = Inl e" using mv False mk1 z m1 fo True mk2 m2 by auto
              then show ?thesis using failed sub02 w2 by simp
            next
              case it: (Inr children)
              then have ch: "children = map (\<lambda>x. Asset_init (fst x)) (listAssets st2 s)"
                by (auto simp: iterdir_def ps split: sum.splits if_splits)
              let ?body = "\<lambda>asset s'.
                   case relative_to (path asset) (path ?S) of
                     Inl e \<Rightarrow> Some (Inl e, s')
                   | Inr rel \<Rightarrow>
                       (case move n s' asset (truediv ?D (path_str rel)) overwrite of
                          None \<Rightarrow> None
                        | Some (Inl e, s'') \<Rightarrow> Some (Inl e, s'')
                        | Some (Inr r, s'') \<Rightarrow> Some (Inr (), s''))"
              obtain lo where lo: "for_each ?body (map (\<lambda>x. Asset_init (fst x)) (listAssets st2 s)) st2 = lo"
                by simp
              have mv2: "(case lo of
                     None \<Rightarrow> None
                   | Some (Inl e, st3) \<Rightarrow> Some (Inl e, st3)
                   | Some (Inr u, st3) \<Rightarrow>
                       (case unlink st3 ?S of
                          (Inl e, st4) \<Rightarrow> Some (Inl e, st4)
                        | (Inr u, st4) \<Rightarrow> Some (Inr ?D, st4))) = Some (r, st')"
                using mv False mk1 z m1 fo True mk2 m2 it ch lo by simp
              then obtain r3 st3 where lo3: "lo = Some (r3, st3)"
                by (cases lo) auto
              have todo: "\<forall>x\<in>set (listAssets st2 s). child_of s (fst x) \<and> canonical_id (fst x)"
                using wf_store_canonical[OF w2] by (auto simp: listAssets_member)
              from move_children_keep[OF ih s d sd ds todo listAssets_distinct[OF w2] w2
                  lo[unfolded lo3]]
              have w3: "wf_store st3"
                and f3: "\<forall>x\<in>set (assets st2).
                    (\<forall>m\<in>set (listAssets st2 s).
                        \<not> under (fst m) (fst x) \<and> \<not> under (relocate s d (fst m)) (fst x))
                    \<longrightarrow> x \<in> set (assets st3)"
                and l3: "no_loss s d st2 st3"
                by blast+
              text \<open>A record that is not below a child of the source or of the destination.\<close>
              have away: "x \<in> set (assets st3)"
                if x: "x \<in> set (assets st2)"
                  and xd: "(\<not> under s (fst x) \<and> \<not> under d (fst x)) \<or> fst x = s \<or> fst x = d" for x
              proof -
                have "\<not> under (fst m) (fst x) \<and> \<not> under (relocate s d (fst m)) (fst x)"
                  if m: "m \<in> set (listAssets st2 s)" for m
                proof -
                  have mc: "child_of s (fst m)" "canonical_id (fst m)" using todo m by auto
                  from child_paths[OF s d mc] obtain nm where
                    nm: "fst m = s @ CHR ''/'' # nm" "relocate s d (fst m) = d @ CHR ''/'' # nm"
                    by blast
                  have us: "under s (fst m)" and ud: "under d (relocate s d (fst m))"
                    using nm by (auto simp: under_iff)
                  have a: "\<not> under (fst m) (fst x)"
                  proof
                    assume u: "under (fst m) (fst x)"
                    then have usx: "under s (fst x)" using us under_trans by blast
                    from xd consider "fst x = s" | "fst x = d" using usx by blast
                    then show False
                    proof cases
                      case 1 then show ?thesis using u under_length[of "fst m" s] nm by simp
                    next
                      case 2 then show ?thesis using usx sd by simp
                    qed
                  qed
                  have b: "\<not> under (relocate s d (fst m)) (fst x)"
                  proof
                    assume u: "under (relocate s d (fst m)) (fst x)"
                    then have udx: "under d (fst x)" using ud under_trans by blast
                    from xd consider "fst x = s" | "fst x = d" using udx by blast
                    then show False
                    proof cases
                      case 1 then show ?thesis using udx ds by simp
                    next
                      case 2
                      then show ?thesis using u under_length[of "relocate s d (fst m)" d] nm by simp
                    qed
                  qed
                  show ?thesis using a b by simp
                qed
                then show ?thesis using f3 x by blast
              qed
              have f03: "frame s d st st3"
                unfolding frame_def using sub02 away by blast
              have l03: "no_loss s d st st3"
                using l3 sub02 by (auto simp: no_loss_def)
              have sF: "(s, ''FOLDER'') \<in> set (assets st1)"
                using True ftype by (simp add: map_of_SomeD)
              have d3: "d \<in> fst ` set (assets st3)"
              proof -
                obtain t where "(d, t) \<in> set (assets st2)" using d2[OF m2] by auto
                then have "(d, t) \<in> set (assets st3)" using away[of "(d, t)"] by simp
                then show ?thesis by force
              qed
              show ?thesis
              proof (cases r3)
                case (Inl e)
                then have "st' = st3" "r = Inl e" using mv2 lo3 by auto
                then show ?thesis using w3 f03 l03 by simp
              next
                case r3: (Inr u3)
                obtain u4 st4 where ul: "unlink st3 ?S = (u4, st4)" by (cases "unlink st3 ?S")
                have fin: "st' = st4" "r = (case u4 of Inl e \<Rightarrow> Inl e | Inr u \<Rightarrow> Inr ?D)"
                  using mv2 lo3 r3 ul by (auto split: sum.splits)
                from unlink_effect[OF ul] show ?thesis
                proof
                  assume "(\<exists>e. u4 = Inl e) \<and> assets st4 = assets st3"
                  then show ?thesis
                    using fin w3 f03 l03 wf_store_assets[of st4 st3]
                    by (auto simp: frame_def no_loss_def)
                next
                  assume ok: "u4 = Inr () \<and> assets st4 = filter (\<lambda>x. fst x \<noteq> as_posix ?S) (assets st3)"
                  then have a4: "assets st4 = filter (\<lambda>x. fst x \<noteq> s) (assets st3)" using ps by simp
                  have w4: "wf_store st4" using wf_store_filter[OF w3 a4] .
                  have f4: "frame s d st st4"
                    using f03 under_refl[of s] by (auto simp: frame_def a4)
                  have l4: "no_loss s d st st4"
                    unfolding no_loss_def
                  proof (intro ballI impI)
                    fix x assume x: "x \<in> set (assets st)" "under s (fst x) \<and> snd x \<noteq> ''FOLDER''"
                    have xs: "fst x \<noteq> s"
                    proof
                      assume "fst x = s"
                      then have "(s, snd x) \<in> set (assets st1)" using x(1) sub1 by (cases x) auto
                      then show False using wf_store_unique[OF w1 _ ] True ftype x(2) by blast
                    qed
                    have js: "relocate s d (fst x) \<noteq> s"
                      using relocate_under_d[of s "fst x" d] x(2) ds by auto
                    from l03 x have "x \<in> set (assets st3) \<or> (relocate s d (fst x), snd x) \<in> set (assets st3)"
                      by (auto simp: no_loss_def)
                    then show "x \<in> set (assets st4) \<or> (relocate s d (fst x), snd x) \<in> set (assets st4)"
                      using xs js by (auto simp: a4)
                  qed
                  have s4: "s \<notin> fst ` set (assets st4)" by (auto simp: a4)
                  have d4: "d \<in> fst ` set (assets st4)" using d3 neq by (auto simp: a4)
                  show ?thesis using fin ok w4 f4 l4 s4 d4 by simp
                qed
              qed
            qed
          qed
        next
          case False
          obtain c st2 where cp: "copyAsset st1 s d = (c, st2)" by (cases "copyAsset st1 s d")
          have mv2: "(case Some (c, st2) of
                     None \<Rightarrow> None
                   | Some (Inl e, st3) \<Rightarrow> Some (Inl e, st3)
                   | Some (Inr u, st3) \<Rightarrow>
                       (case unlink st3 ?S of
                          (Inl e, st4) \<Rightarrow> Some (Inl e, st4)
                        | (Inr u, st4) \<Rightarrow> Some (Inr ?D, st4))) = Some (r, st')"
            using mv \<open>\<not> (exists st ?D False = Inr True \<and> \<not> overwrite)\<close> mk1 z m1 fo False cp ps pd
            by simp
          from copyAsset_effect[OF cp] show ?thesis
          proof
            assume f: "(\<exists>e. c = Inl e) \<and> assets st2 = assets st1"
            then have "st' = st2" "\<exists>e. r = Inl e" using mv2 by auto
            then show ?thesis using failed sub1 w1 f wf_store_assets[of st2 st1] by simp
          next
            assume "\<exists>t. c = Inr () \<and> map_of (assets st1) s = Some t \<and> assets st2 = put d t (assets st1)"
            then obtain t0 where c: "c = Inr ()" and t0: "map_of (assets st1) s = Some t0"
              and a2: "assets st2 = put d t0 (assets st1)" by blast
            have w2: "wf_store st2" using wf_store_put[OF w1 d a2] .
            have keep2: "x \<in> set (assets st2)" if "x \<in> set (assets st1)" "fst x \<noteq> d" for x
              using that put_other by (simp add: a2)
            have dt2: "(d, t0) \<in> set (assets st2)" using put_member by (simp add: a2)
            obtain u4 st4 where ul: "unlink st2 ?S = (u4, st4)" by (cases "unlink st2 ?S")
            have fin: "st' = st4" "r = (case u4 of Inl e \<Rightarrow> Inl e | Inr u \<Rightarrow> Inr ?D)"
              using mv2 c ul by (auto split: sum.splits)
            have f02: "frame s d st st2"
              unfolding frame_def using sub1 keep2 under_refl[of d] by blast
            have l02: "no_loss s d st st2"
              unfolding no_loss_def
            proof (intro ballI impI)
              fix x assume x: "x \<in> set (assets st)" "under s (fst x) \<and> snd x \<noteq> ''FOLDER''"
              have x1: "x \<in> set (assets st1)" using x(1) sub1 by blast
              show "x \<in> set (assets st2) \<or> (relocate s d (fst x), snd x) \<in> set (assets st2)"
              proof (cases "fst x = s")
                case True
                then have "snd x = t0" using wf_store_unique[OF w1 _ t0, of "snd x"] x1 by (cases x) auto
                moreover have "relocate s d (fst x) = d" using True by (simp add: relocate_def)
                ultimately show ?thesis using dt2 by simp
              next
                case False
                have "fst x \<noteq> d" using x(2) sd by auto
                then show ?thesis using keep2[OF x1] by simp
              qed
            qed
            from unlink_effect[OF ul] show ?thesis
            proof
              assume "(\<exists>e. u4 = Inl e) \<and> assets st4 = assets st2"
              then show ?thesis
                using fin w2 f02 l02 wf_store_assets[of st4 st2]
                by (auto simp: frame_def no_loss_def)
            next
              assume ok: "u4 = Inr () \<and> assets st4 = filter (\<lambda>x. fst x \<noteq> as_posix ?S) (assets st2)"
              then have a4: "assets st4 = filter (\<lambda>x. fst x \<noteq> s) (assets st2)" using ps by simp
              have w4: "wf_store st4" using wf_store_filter[OF w2 a4] .
              have f4: "frame s d st st4"
                using f02 under_refl[of s] by (auto simp: frame_def a4)
              have l4: "no_loss s d st st4"
                unfolding no_loss_def
              proof (intro ballI impI)
                fix x assume x: "x \<in> set (assets st)" "under s (fst x) \<and> snd x \<noteq> ''FOLDER''"
                have js: "relocate s d (fst x) \<noteq> s"
                  using relocate_under_d[of s "fst x" d] x(2) ds by auto
                have x1: "x \<in> set (assets st1)" using x(1) sub1 by blast
                show "x \<in> set (assets st4) \<or> (relocate s d (fst x), snd x) \<in> set (assets st4)"
                proof (cases "fst x = s")
                  case True
                  then have "snd x = t0" using wf_store_unique[OF w1 _ t0, of "snd x"] x1 by (cases x) auto
                  moreover have "relocate s d (fst x) = d" using True by (simp add: relocate_def)
                  ultimately show ?thesis using dt2 neq by (auto simp: a4)
                next
                  case False
                  have "fst x \<noteq> d" using x(2) sd by auto
                  then show ?thesis using keep2[OF x1] False by (simp add: a4)
                qed
              qed
              have s4: "s \<notin> fst ` set (assets st4)" by (auto simp: a4)
              have d4: "d \<in> fst ` set (assets st4)" using dt2 neq by (force simp: a4)
              show ?thesis using fin ok w4 f4 l4 s4 d4 by simp
            qed
          qed
        qed
      qed
    qed
  qed
qed


lemma move_ok_all: "move_ok n overwrite"
proof (induction n)
  case 0
  show ?case by (simp add: move_ok_def)
next
  case (Suc n)
  then show ?case by (rule move_ok_Suc)
qed

text \<open>
  Claim C2 (the source subtree is deleted only at the very end of the top-level call, so a
  leaf copy that fails mid-tree leaves the entire source present) on a folder \<open>A\<close> with the
  leaves \<open>A/x\<close> and \<open>A/y\<close>, when the store refuses the copy of \<open>A/y\<close>: the move raises, and
  \<open>A/x\<close>, which was moved before, is no longer at the source.
\<close>

theorem move_partial_failure:
  "move 5 move_store (Asset_init ''projects/p/assets/A'') (Asset_init ''projects/p/assets/B'') False
     = Some (Inl (EEException ''Request refused: copy projects/p/assets/A/y''),
         \<lparr>assets = [(''projects/p/assets'', ''FOLDER''),
                    (''projects/p/assets/A'', ''FOLDER''),
                    (''projects/p/assets/A/y'', ''IMAGE''),
                    (''projects/p/assets/B'', ''FOLDER''),
                    (''projects/p/assets/B/x'', ''IMAGE'')],
          refused = [CopyAsset ''projects/p/assets/A/y'' ''projects/p/assets/B/y''],
          calls = [CreateAsset ''projects/p/assets/B'',
                   CopyAsset ''projects/p/assets/A/x'' ''projects/p/assets/B/x'',
                   DeleteAsset ''projects/p/assets/A/x'',
                   CopyAsset ''projects/p/assets/A/y'' ''projects/p/assets/B/y'']\<rparr>) \<and>
   exists move_store (Asset_init ''projects/p/assets/A/x'') False = Inr True \<and>
   exists
     \<lparr>assets = [(''projects/p/assets'', ''FOLDER''),
                (''projects/p/assets/A'', ''FOLDER''),
                (''projects/p/assets/A/y'', ''IMAGE''),
                (''projects/p/assets/B'', ''FOLDER''),
                (''projects/p/assets/B/x'', ''IMAGE'')],
      refused = [CopyAsset ''projects/p/assets/A/y'' ''projects/p/assets/B/y''],
      calls = [CreateAsset ''projects/p/assets/B'',
               CopyAsset ''projects/p/assets/A/x'' ''projects/p/assets/B/x'',
               DeleteAsset ''projects/p/assets/A/x'',
               CopyAsset ''projects/p/assets/A/y'' ''projects/p/assets/B/y'']\<rparr>
     (Asset_init ''projects/p/assets/A/x'') False = Inr False"
  by code_simp

section \<open>Expanding the home prefix, on assets without a root\<close>

lemma replace_first_split:
  "old \<notin> set u \<Longrightarrow> replace_first old new (u @ old # v) = u @ new @ v"
  by (induction u) auto

lemma replace_first_absent: "old \<notin> set s \<Longrightarrow> replace_first old new s = s"
  by (induction s) auto

lemma join_sep_append:
  "xs \<noteq> [] \<Longrightarrow> ys \<noteq> [] \<Longrightarrow> join_sep (xs @ ys) = join_sep xs @ CHR ''/'' # join_sep ys"
proof (induction xs rule: join_sep.induct)
  case 1 then show ?case by simp
next
  case (2 x) then show ?case by (cases ys) auto
next
  case (3 x y zs) then show ?case by simp
qed

lemma home_as_posix:
  assumes "valid_part project"
  shows "as_posix (home project) = ''projects/'' @ project @ ''/assets''"
proof -
  let ?cs = "[''projects'', project, ''assets'']"
  have v: "list_all valid_part ?cs" using assms by (simp add: valid_part_def)
  have j: "''projects/'' @ project @ ''/assets/'' = join_sep ?cs @ ''/''" by simp
  have sp: "split_sep (join_sep ?cs @ ''/'') = ?cs @ [[]]"
    using split_sep_app[of "join_sep ?cs" "[]"] split_join[of ?cs] v
    by (simp add: valid_part_def)
  have sr: "splitroot (join_sep ?cs @ ''/'') = ([], join_sep ?cs @ ''/'')"
    by (simp add: splitroot_def)
  have "parse_path (join_sep ?cs @ ''/'')
        = PurePosixPath [] (filter (\<lambda>x. x \<noteq> [] \<and> x \<noteq> ''.'') (split_sep (join_sep ?cs @ ''/'')))"
    by (simp only: parse_path_def sr prod.case)
  then have "parse_path (join_sep ?cs @ ''/'') = PurePosixPath [] ?cs"
    using assms unfolding sp by (simp add: valid_part_def)
  then have "home project = Asset (PurePosixPath [] ?cs)"
    unfolding home_def j Asset_init_def by (simp add: Asset_of_path_rootless)
  then show ?thesis using canonical_join(2)[OF v] by simp
qed

lemma first_tilde:
  assumes "CHR ''~'' \<in> set (concat cs)"
  shows "\<exists>pre u v post. cs = pre @ (u @ CHR ''~'' # v) # post \<and>
           CHR ''~'' \<notin> set (concat pre) \<and> CHR ''~'' \<notin> set u"
  using assms
proof (induction cs)
  case Nil then show ?case by simp
next
  case (Cons c cs)
  show ?case
  proof (cases "CHR ''~'' \<in> set c")
    case True
    then obtain u v where "c = u @ CHR ''~'' # v" "CHR ''~'' \<notin> set u"
      by (meson split_list_first)
    then show ?thesis by (intro exI[of _ "[]"] exI[of _ u] exI[of _ v] exI[of _ cs]) simp
  next
    case False
    then have "CHR ''~'' \<in> set (concat cs)" using Cons.prems by simp
    from Cons.IH[OF this] obtain pre u v post where
      "cs = pre @ (u @ CHR ''~'' # v) # post" "CHR ''~'' \<notin> set (concat pre)" "CHR ''~'' \<notin> set u"
      by blast
    then show ?thesis using False
      by (intro exI[of _ "c # pre"] exI[of _ u] exI[of _ v] exI[of _ post]) simp
  qed
qed

lemma set_join_sep: "set (join_sep cs) \<subseteq> set (concat cs) \<union> {CHR ''/''}"
  by (induction cs rule: join_sep.induct) auto

lemma set_concat_join_sep: "set (concat cs) \<subseteq> set (join_sep cs)"
  by (induction cs rule: join_sep.induct) auto

lemma join_sep_around:
  "join_sep (pre @ c # post)
     = (if pre = [] then [] else join_sep pre @ ''/'') @ c @
       (if post = [] then [] else CHR ''/'' # join_sep post)"
proof -
  have 1: "join_sep (c # post) = c @ (if post = [] then [] else CHR ''/'' # join_sep post)"
    by (cases post) auto
  show ?thesis
  proof (cases "pre = []")
    case True then show ?thesis using 1 by simp
  next
    case False
    then show ?thesis using join_sep_append[of pre "c # post"] 1 by simp
  qed
qed

lemma join_sep_around3:
  "join_sep (pre @ a # b # c # post)
     = (if pre = [] then [] else join_sep pre @ ''/'') @ a @ ''/'' @ b @ ''/'' @ c @
       (if post = [] then [] else CHR ''/'' # join_sep post)"
proof -
  have 1: "join_sep (a # b # c # post)
         = a @ ''/'' @ b @ ''/'' @ c @ (if post = [] then [] else CHR ''/'' # join_sep post)"
    by (cases post) auto
  show ?thesis
  proof (cases "pre = []")
    case True then show ?thesis using 1 by simp
  next
    case False
    then show ?thesis using join_sep_append[of pre "a # b # c # post"] 1 by simp
  qed
qed

text \<open>
  For an asset without a retained root and a well-formed project name: the string of the
  expanded asset is the asset's string with the first \<open>~\<close> replaced by the home prefix,
  wherever it stands, and an asset with no \<open>~\<close> is returned as it is.
\<close>

lemma expanduser_rootless:
  assumes root: "root (path (Asset_init z)) = []" and proj: "valid_part project"
  shows "as_posix (home project) = ''projects/'' @ project @ ''/assets'' \<and>
         (CHR ''~'' \<notin> set (as_posix (Asset_init z))
            \<longrightarrow> expanduser project (Asset_init z) = Asset_init z) \<and>
         (CHR ''~'' \<in> set (as_posix (Asset_init z))
            \<longrightarrow> as_posix (expanduser project (Asset_init z))
                = replace_first (CHR ''~'') (''projects/'' @ project @ ''/assets'')
                    (as_posix (Asset_init z)))"
proof -
  let ?H = "''projects/'' @ project @ ''/assets''"
  have h: "as_posix (home project) = ?H" by (rule home_as_posix[OF proj])
  obtain cs where v: "list_all valid_part cs"
    and c: "Asset_init z = Asset (PurePosixPath [] cs) \<or> Asset_init z = Asset (PurePosixPath ''/'' cs)"
    using Asset_init_cases[of z] by blast
  from c root have a: "Asset_init z = Asset (PurePosixPath [] cs)" by auto
  have no: "expanduser project (Asset_init z) = Asset_init z"
    if "CHR ''~'' \<notin> set (as_posix (Asset_init z))"
    using that Asset_init_idem_rootless[OF root]
    by (simp add: expanduser_def replace_first_absent)
  have yes: "as_posix (expanduser project (Asset_init z))
                = replace_first (CHR ''~'') ?H (as_posix (Asset_init z))"
    if t: "CHR ''~'' \<in> set (as_posix (Asset_init z))"
  proof -
    have ne: "cs \<noteq> []" using t a by (auto simp: as_posix_def path_str_def)
    have ap: "as_posix (Asset_init z) = join_sep cs" using canonical_join(2)[OF v ne] a by simp
    have "CHR ''~'' \<in> set (concat cs)" using t ap set_join_sep[of cs] by auto
    from first_tilde[OF this] obtain pre u w post where
      cs: "cs = pre @ (u @ CHR ''~'' # w) # post"
      and np: "CHR ''~'' \<notin> set (concat pre)" and nu: "CHR ''~'' \<notin> set u"
      by blast
    let ?P = "(if pre = [] then [] else join_sep pre @ ''/'')"
    let ?Q = "(if post = [] then [] else CHR ''/'' # join_sep post)"
    have nP: "CHR ''~'' \<notin> set (?P @ u)" using np nu set_join_sep[of pre] by auto
    have "join_sep cs = (?P @ u) @ CHR ''~'' # (w @ ?Q)"
      unfolding cs join_sep_around by simp
    then have rep: "replace_first (CHR ''~'') ?H (join_sep cs) = (?P @ u) @ ?H @ (w @ ?Q)"
      using replace_first_split[OF nP] by simp
    let ?cs' = "pre @ (u @ ''projects'') # project # (''assets'' @ w) # post"
    have j': "join_sep ?cs' = (?P @ u) @ ?H @ (w @ ?Q)"
      unfolding join_sep_around3 by simp
    have vc: "valid_part (u @ CHR ''~'' # w)" and vpre: "list_all valid_part pre"
      and vpost: "list_all valid_part post"
      using v cs by simp_all
    have v1: "valid_part (u @ ''projects'')" using vc by (auto simp: valid_part_def)
    have v3: "valid_part (''assets'' @ w)" using vc by (auto simp: valid_part_def)
    have v': "list_all valid_part ?cs'" using vpre vpost v1 v3 proj by simp
    have "expanduser project (Asset_init z) = Asset_init (join_sep ?cs')"
      by (simp only: expanduser_def h ap rep j')
    also have "\<dots> = Asset (PurePosixPath [] ?cs')"
      by (simp only: Asset_init_def parse_join[OF v'] Asset_of_path_rootless)
    finally have "as_posix (expanduser project (Asset_init z)) = join_sep ?cs'"
      using canonical_join(2)[OF v'] by simp
    then show ?thesis unfolding ap rep j' .
  qed
  show ?thesis using h no yes by blast
qed

text \<open>
  Moving an asset onto itself with \<open>overwrite=True\<close> succeeds and leaves nothing: the copy
  is followed by the deletion of the same identifier.
\<close>

lemma move_onto_itself:
  "move 5 (move_store\<lparr>refused := []\<rparr>)
     (Asset_init ''projects/p/assets/A/x'') (Asset_init ''projects/p/assets/A/x'') True
     = Some (Inr (Asset_init ''projects/p/assets/A/x''),
         \<lparr>assets = [(''projects/p/assets'', ''FOLDER''),
                    (''projects/p/assets/A'', ''FOLDER''),
                    (''projects/p/assets/A/y'', ''IMAGE'')],
          refused = [],
          calls = [CopyAsset ''projects/p/assets/A/x'' ''projects/p/assets/A/x'',
                   DeleteAsset ''projects/p/assets/A/x'']\<rparr>)"
  by code_simp

section \<open>Copying, and what a move adds to it\<close>

text \<open>\<open>copy\<close>, with the same bound on the depth of the recursion as \<open>move\<close>.\<close>

fun copy :: "nat \<Rightarrow> remote \<Rightarrow> Asset \<Rightarrow> Asset \<Rightarrow> bool \<Rightarrow> Asset outcome" where
  "copy 0 st self new_asset overwrite = None"
| "copy (Suc n) st self new_asset overwrite =
     (if exists st new_asset False = Inr True \<and> \<not> overwrite
      then Some (Inl (ValueError (''Asset '' @ as_posix new_asset @ '' already exists.'')), st)
      else
        (case mkdir st (parent new_asset) True True of
           (Inl e, st1) \<Rightarrow> Some (Inl e, st1)
         | (Inr p, st1) \<Rightarrow>
             (case is_folder st1 self False of
                Inl e \<Rightarrow> Some (Inl e, st1)
              | Inr folder \<Rightarrow>
                  (case
                     (if folder then
                        (case mkdir st1 new_asset True True of
                           (Inl e, st2) \<Rightarrow> Some (Inl e, st2)
                         | (Inr q, st2) \<Rightarrow>
                             (case iterdir st2 self False of
                                Inl e \<Rightarrow> Some (Inl e, st2)
                              | Inr children \<Rightarrow>
                                  for_each
                                    (\<lambda>asset s.
                                       case relative_to (path asset) (path self) of
                                         Inl e \<Rightarrow> Some (Inl e, s)
                                       | Inr rel \<Rightarrow>
                                           (case copy n s asset
                                                   (truediv new_asset (path_str rel)) overwrite of
                                              None \<Rightarrow> None
                                            | Some (Inl e, s') \<Rightarrow> Some (Inl e, s')
                                            | Some (Inr r, s') \<Rightarrow> Some (Inr (), s')))
                                    children st2))
                      else Some (copyAsset st1 (as_posix self) (as_posix new_asset)))
                   of
                     None \<Rightarrow> None
                   | Some (Inl e, st3) \<Rightarrow> Some (Inl e, st3)
                   | Some (Inr u, st3) \<Rightarrow> Some (Inr new_asset, st3)))))"

text \<open>
  The recursion the two methods share. With \<open>delete_source\<close> every call ends with
  \<open>self.unlink()\<close>; without it the call returns where \<open>copy\<close> returns.
\<close>

fun transfer :: "bool \<Rightarrow> nat \<Rightarrow> remote \<Rightarrow> Asset \<Rightarrow> Asset \<Rightarrow> bool \<Rightarrow> Asset outcome" where
  "transfer delete_source 0 st self new_asset overwrite = None"
| "transfer delete_source (Suc n) st self new_asset overwrite =
     (if exists st new_asset False = Inr True \<and> \<not> overwrite
      then Some (Inl (ValueError (''Asset '' @ as_posix new_asset @ '' already exists.'')), st)
      else
        (case mkdir st (parent new_asset) True True of
           (Inl e, st1) \<Rightarrow> Some (Inl e, st1)
         | (Inr p, st1) \<Rightarrow>
             (case is_folder st1 self False of
                Inl e \<Rightarrow> Some (Inl e, st1)
              | Inr folder \<Rightarrow>
                  (case
                     (if folder then
                        (case mkdir st1 new_asset True True of
                           (Inl e, st2) \<Rightarrow> Some (Inl e, st2)
                         | (Inr q, st2) \<Rightarrow>
                             (case iterdir st2 self False of
                                Inl e \<Rightarrow> Some (Inl e, st2)
                              | Inr children \<Rightarrow>
                                  for_each
                                    (\<lambda>asset s.
                                       case relative_to (path asset) (path self) of
                                         Inl e \<Rightarrow> Some (Inl e, s)
                                       | Inr rel \<Rightarrow>
                                           (case transfer delete_source n s asset
                                                   (truediv new_asset (path_str rel)) overwrite of
                                              None \<Rightarrow> None
                                            | Some (Inl e, s') \<Rightarrow> Some (Inl e, s')
                                            | Some (Inr r, s') \<Rightarrow> Some (Inr (), s')))
                                    children st2))
                      else Some (copyAsset st1 (as_posix self) (as_posix new_asset)))
                   of
                     None \<Rightarrow> None
                   | Some (Inl e, st3) \<Rightarrow> Some (Inl e, st3)
                   | Some (Inr u, st3) \<Rightarrow>
                       (if delete_source then
                          (case unlink st3 self of
                             (Inl e, st4) \<Rightarrow> Some (Inl e, st4)
                           | (Inr u, st4) \<Rightarrow> Some (Inr new_asset, st4))
                        else Some (Inr new_asset, st3))))))"

lemma copy_is_transfer: "copy n st self new_asset overwrite = transfer False n st self new_asset overwrite"
proof (induction n arbitrary: st self new_asset)
  case 0
  show ?case by simp
next
  case (Suc n)
  show ?case by (simp only: copy.simps transfer.simps Suc.IH if_False)
qed

lemma move_is_transfer: "move n st self new_asset overwrite = transfer True n st self new_asset overwrite"
proof (induction n arbitrary: st self new_asset)
  case 0
  show ?case by simp
next
  case (Suc n)
  show ?case by (simp only: move.simps transfer.simps Suc.IH if_True)
qed

section \<open>The requests of a move\<close>

text \<open>
  In a sequence of requests, every copy that is not the last request is followed at once
  by the deletion of what was copied.
\<close>

fun copies_deleted :: "call list \<Rightarrow> bool" where
  "copies_deleted (CopyAsset x y # c # cs) = (c = DeleteAsset x \<and> copies_deleted (c # cs))"
| "copies_deleted (c # cs) = copies_deleted cs"
| "copies_deleted [] = True"

fun is_copy :: "call \<Rightarrow> bool" where
  "is_copy (CopyAsset x y) = True"
| "is_copy c = False"

text \<open>
  What a request of \<open>move s d\<close> is about: a folder is created at the destination or above
  it, an asset below the source is copied to its place below the destination, an asset
  below the source is deleted.
\<close>

fun concerns :: "string \<Rightarrow> string \<Rightarrow> call \<Rightarrow> bool" where
  "concerns s d (CreateAsset i) = (under i d \<or> under d i)"
| "concerns s d (CopyAsset x y) = (under s x \<and> y = relocate s d x)"
| "concerns s d (DeleteAsset x) = under s x"

text \<open>The records that are new or changed are at the destination, below it or above it.\<close>

definition adds_near :: "string \<Rightarrow> remote \<Rightarrow> remote \<Rightarrow> bool" where
  "adds_near d st st' =
     (\<forall>x\<in>set (assets st'). x \<in> set (assets st) \<or> under (fst x) d \<or> under d (fst x))"

lemma copies_deleted_Cons:
  "copies_deleted (c # cs) =
     ((\<forall>x y. c = CopyAsset x y \<longrightarrow> cs = [] \<or> hd cs = DeleteAsset x) \<and> copies_deleted cs)"
  by (cases c; cases cs) auto

lemma copies_deleted_append:
  "copies_deleted xs \<Longrightarrow> copies_deleted ys \<Longrightarrow> xs = [] \<or> \<not> is_copy (last xs) \<Longrightarrow>
   copies_deleted (xs @ ys)"
proof (induction xs)
  case Nil
  then show ?case by simp
next
  case (Cons c cs)
  show ?case
  proof (cases "cs = []")
    case True
    then have "\<not> is_copy c" using Cons.prems(3) by simp
    then show ?thesis using True Cons.prems(2) by (cases c) (auto simp: copies_deleted_Cons)
  next
    case False
    then have "copies_deleted (cs @ ys)" using Cons by (simp add: copies_deleted_Cons)
    then show ?thesis
      using False Cons.prems(1) by (simp add: copies_deleted_Cons[of c] del: copies_deleted.simps)
  qed
qed

lemma copies_deleted_no_copy: "\<forall>c\<in>set xs. \<not> is_copy c \<Longrightarrow> copies_deleted xs"
proof (induction xs)
  case Nil
  then show ?case by simp
next
  case (Cons c cs)
  then show ?case by (cases c) (auto simp: copies_deleted_Cons)
qed

lemma adds_near_refl: "assets st' = assets st \<Longrightarrow> adds_near d st st'"
  by (simp add: adds_near_def)

lemma adds_near_trans: "adds_near d st st1 \<Longrightarrow> adds_near d st1 st2 \<Longrightarrow> adds_near d st st2"
  unfolding adds_near_def by blast

lemma adds_near_child:
  assumes "adds_near (d @ CHR ''/'' # name) st st'" and "CHR ''/'' \<notin> set name"
  shows "adds_near d st st'"
proof -
  have dd: "under d (d @ CHR ''/'' # name)" by (auto simp: under_iff)
  show ?thesis
    unfolding adds_near_def
  proof
    fix x assume "x \<in> set (assets st')"
    then consider "x \<in> set (assets st)" | "under (fst x) (d @ CHR ''/'' # name)"
      | "under (d @ CHR ''/'' # name) (fst x)"
      using assms(1) unfolding adds_near_def by blast
    then show "x \<in> set (assets st) \<or> under (fst x) d \<or> under d (fst x)"
    proof cases
      case 1 then show ?thesis by simp
    next
      case 2
      then have "fst x = d @ CHR ''/'' # name \<or> under (fst x) d"
        using under_child[OF assms(2)] by simp
      then show ?thesis using dd by auto
    next
      case 3
      then show ?thesis using dd under_trans by blast
    qed
  qed
qed

lemma adds_near_parent:
  assumes "\<forall>x\<in>set (assets st'). x \<in> set (assets st) \<or> under (fst x) z" and "under z d"
  shows "adds_near d st st'"
  unfolding adds_near_def using assms under_trans by blast

lemma no_new_under:
  assumes "adds_near d st st'" and "\<not> under u d" and "\<not> under d u"
    and "x \<in> set (assets st')" and "under u (fst x)"
  shows "x \<in> set (assets st)"
proof -
  from assms(1,4) consider "x \<in> set (assets st)" | "under (fst x) d" | "under d (fst x)"
    unfolding adds_near_def by blast
  then show ?thesis
  proof cases
    case 1 then show ?thesis .
  next
    case 2
    then have "under u d" using assms(5) under_trans by blast
    then show ?thesis using assms(2) by simp
  next
    case 3
    then show ?thesis using under_comparable[OF assms(5) 3] assms(2,3) by blast
  qed
qed

text \<open>Below a source and below a destination that are not related, nothing is related.\<close>

lemma unrelated_sub:
  assumes "\<not> under s d" and "\<not> under d s" and "under s u" and "under d v"
  shows "\<not> under u v" and "\<not> under v u"
proof -
  show "\<not> under u v"
  proof
    assume "under u v"
    then have "under s v" using assms(3) under_trans by blast
    then show False using under_comparable[OF _ assms(4)] assms(1,2) by blast
  qed
  show "\<not> under v u"
  proof
    assume "under v u"
    then have "under d u" using assms(4) under_trans by blast
    then show False using under_comparable[OF assms(3)] assms(1,2) by blast
  qed
qed

subsection \<open>The requests of one operation\<close>

lemma createAsset_calls:
  "createAsset st i = (r, st') \<Longrightarrow> calls st' = calls st @ [CreateAsset i]"
  by (auto simp: createAsset_def Let_def split: if_splits)

lemma copyAsset_calls:
  "copyAsset st x y = (r, st') \<Longrightarrow> calls st' = calls st @ [CopyAsset x y]"
  by (auto simp: copyAsset_def Let_def split: if_splits option.splits)

lemma unlink_calls:
  assumes "unlink st a = (r, st')"
  shows "(calls st' = calls st \<and> assets st' = assets st \<and> (\<exists>e. r = Inl e)) \<or>
         calls st' = calls st @ [DeleteAsset (as_posix a)]"
proof (cases "exists st a True")
  case (Inl e)
  then show ?thesis using assms by (auto simp: unlink_def)
next
  case (Inr b)
  then have "deleteAsset st (as_posix a) = (r, st')" using assms by (simp add: unlink_def)
  then show ?thesis using deleteAsset_calls[of st "as_posix a"] by simp
qed

lemma create_all_calls:
  assumes "create_all ps st = (r, st')"
  shows "\<exists>new. calls st' = calls st @ new \<and> set new \<subseteq> CreateAsset ` as_posix ` set ps \<and>
           (\<forall>x\<in>set (assets st'). x \<in> set (assets st) \<or> fst x \<in> as_posix ` set ps)"
  using assms
proof (induction ps arbitrary: st)
  case Nil
  then show ?case by auto
next
  case (Cons p ps)
  obtain c st1 where c: "createAsset st (as_posix p) = (c, st1)" by (cases "createAsset st (as_posix p)")
  have l1: "calls st1 = calls st @ [CreateAsset (as_posix p)]" using createAsset_calls[OF c] .
  from createAsset_effect[OF c] show ?case
  proof
    assume f: "(\<exists>e. c = Inl e) \<and> assets st1 = assets st"
    then have "st' = st1" using Cons.prems c by auto
    then show ?thesis using f l1 by auto
  next
    assume s: "c = Inr () \<and> as_posix p \<notin> fst ` set (assets st) \<and>
               assets st1 = assets st @ [(as_posix p, ''FOLDER'')]"
    then have "create_all ps st1 = (r, st')" using Cons.prems c by simp
    from Cons.IH[OF this] obtain new where
      n: "calls st' = calls st1 @ new" "set new \<subseteq> CreateAsset ` as_posix ` set ps"
         "\<forall>x\<in>set (assets st'). x \<in> set (assets st1) \<or> fst x \<in> as_posix ` set ps"
      by blast
    have "calls st' = calls st @ (CreateAsset (as_posix p) # new)" using n(1) l1 by simp
    moreover have "set (CreateAsset (as_posix p) # new) \<subseteq> CreateAsset ` as_posix ` set (p # ps)"
      using n(2) by auto
    moreover have "\<forall>x\<in>set (assets st'). x \<in> set (assets st) \<or> fst x \<in> as_posix ` set (p # ps)"
      using n(3) s by auto
    ultimately show ?thesis by blast
  qed
qed

lemma under_join_take:
  assumes "0 < k"
  shows "under (join_sep (take k cs)) (join_sep cs)"
proof (cases "k < length cs")
  case True
  then have "take k cs \<noteq> []" "drop k cs \<noteq> []" using assms by auto
  from join_sep_append[OF this] show ?thesis by (auto simp: under_iff)
next
  case False
  then show ?thesis by (simp add: under_refl)
qed

lemma to_be_created_above:
  assumes "is_absolute (Asset_init z) False = Inr True"
    and "p \<in> set (to_be_created st (Asset_init z))"
  shows "under (as_posix p) (as_posix (Asset_init z))"
proof -
  obtain owner rest where v: "list_all valid_part (owner # rest)"
    and a: "Asset_init z = Asset (PurePosixPath [] (''projects'' # owner # ''assets'' # rest))"
    using absolute_shape[OF assms(1)] by blast
  let ?cs = "''projects'' # owner # ''assets'' # rest"
  have vp: "valid_part ''projects''" "valid_part ''assets''" by (simp_all add: valid_part_def)
  have vcs: "list_all valid_part ?cs" using v vp by simp
  have vo: "valid_part owner" using v by simp
  have az: "as_posix (Asset_init z) = join_sep ?cs" using canonical_join(2)[OF vcs] a by simp
  from assms(2) have "p = Asset_init z \<or> p \<in> set (parents (Asset_init z))"
    by (auto simp: to_be_created_def Let_def split: if_splits)
  then show ?thesis
  proof
    assume "p = Asset_init z"
    then show ?thesis by (simp add: under_refl)
  next
    assume "p \<in> set (parents (Asset_init z))"
    then obtain i where i: "i < length rest - 1"
      and p: "p = Asset (PurePosixPath [] (take (2 + length rest - i) ?cs))"
      unfolding a parents_of_absolute[OF vo] by auto
    let ?k = "2 + length rest - i"
    have "set (take ?k ?cs) \<subseteq> set ?cs" by (rule set_take_subset)
    then have vt: "list_all valid_part (take ?k ?cs)"
      using vcs unfolding list_all_iff by blast
    have ne: "take ?k ?cs \<noteq> []" using i by simp
    have "as_posix p = join_sep (take ?k ?cs)" using canonical_join(2)[OF vt ne] p by simp
    moreover have "0 < ?k" using i by simp
    ultimately show ?thesis using under_join_take[of ?k ?cs] az by simp
  qed
qed

lemma mkdir_calls:
  assumes "mkdir st (Asset_init z) with_parents exist_ok = (r, st')"
  shows "\<exists>new. calls st' = calls st @ new \<and>
           (\<forall>c\<in>set new. \<exists>i. c = CreateAsset i \<and> under i (as_posix (Asset_init z)) \<and>
                              is_absolute (Asset_init z) False = Inr True) \<and>
           (\<forall>x\<in>set (assets st'). x \<in> set (assets st) \<or>
              (under (fst x) (as_posix (Asset_init z)) \<and>
               is_absolute (Asset_init z) False = Inr True))"
proof (cases "is_absolute (Asset_init z) False = Inr True")
  case False
  then have "is_absolute (Asset_init z) True
           = Inl (ValueError (''Asset '' @ as_posix (Asset_init z) @ '' is not absolute.''))"
    by (auto simp: is_absolute_def)
  then have "st' = st" using assms by (auto simp: mkdir_def)
  then show ?thesis by simp
next
  case True
  let ?a = "Asset_init z"
  let ?tbc = "to_be_created st ?a"
  have abs: "is_absolute ?a True = Inr True" using True by (auto simp: is_absolute_def split: if_splits)
  consider "st' = st"
    | c where "create_all (rev ?tbc) st = (c, st')"
    using assms abs by (auto simp: mkdir_def split: if_splits prod.splits sum.splits)
  then show ?thesis
  proof cases
    case 1 then show ?thesis by simp
  next
    case 2
    from create_all_calls[OF 2] obtain new where
      n: "calls st' = calls st @ new" "set new \<subseteq> CreateAsset ` as_posix ` set (rev ?tbc)"
         "\<forall>x\<in>set (assets st'). x \<in> set (assets st) \<or> fst x \<in> as_posix ` set (rev ?tbc)"
      by blast
    have ab: "under (as_posix p) (as_posix ?a)" if "p \<in> set ?tbc" for p
      using to_be_created_above[OF True that] .
    have "\<forall>c\<in>set new. \<exists>i. c = CreateAsset i \<and> under i (as_posix ?a) \<and>
            is_absolute ?a False = Inr True"
      using n(2) ab True by auto
    moreover have "\<forall>x\<in>set (assets st'). x \<in> set (assets st) \<or>
            (under (fst x) (as_posix ?a) \<and> is_absolute ?a False = Inr True)"
      using n(3) ab True by auto
    ultimately show ?thesis using n(1) by blast
  qed
qed

lemma parent_above:
  assumes "canonical_id d" and "is_absolute (parent (Asset_init d)) False = Inr True"
  shows "under (as_posix (parent (Asset_init d))) d"
proof -
  let ?cs = "split_sep d"
  have p: "parent (Asset_init d) = Asset (PurePosixPath [] (butlast ?cs))"
    by (simp add: parent_def canonical_Asset_init[OF assms(1)] path_parent_def Asset_of_path_rootless)
  have ne: "butlast ?cs \<noteq> []"
    using assms(2) unfolding p by (auto simp: is_absolute_def parts_def path_parts_def)
  have v: "list_all valid_part (butlast ?cs)"
    using assms(1) by (auto simp: canonical_id_def list_all_iff dest: in_set_butlastD)
  have ap: "as_posix (parent (Asset_init d)) = join_sep (butlast ?cs)"
    using canonical_join(2)[OF v ne] p by simp
  have "?cs = butlast ?cs @ [last ?cs]" using split_sep_nonempty[of d] by simp
  then have "join_sep ?cs = join_sep (butlast ?cs @ [last ?cs])" by simp
  also have "\<dots> = join_sep (butlast ?cs) @ CHR ''/'' # join_sep [last ?cs]"
    using join_sep_append[OF ne, of "[last ?cs]"] by simp
  finally have "d = join_sep (butlast ?cs) @ CHR ''/'' # join_sep [last ?cs]"
    by (simp add: join_split)
  then show ?thesis unfolding ap under_iff by blast
qed

subsection \<open>What a sequence of requests leaves\<close>

text \<open>
  \<open>effects s d st failed st' new\<close>: the requests \<open>new\<close> were sent, in this order, between
  the stores \<open>st\<close> and \<open>st'\<close>. Every copy in it is followed at once by the deletion of what
  was copied. A deletion that was requested has removed its identifier, unless it is the
  last request and it failed. A record below the source is still there unless its
  deletion was requested. New records are near the destination.
\<close>

definition effects :: "string \<Rightarrow> string \<Rightarrow> remote \<Rightarrow> bool \<Rightarrow> remote \<Rightarrow> call list \<Rightarrow> bool" where
  "effects s d st failed st' new =
     (calls st' = calls st @ new \<and>
      copies_deleted new \<and>
      (\<forall>c\<in>set new. concerns s d c) \<and>
      (\<forall>x. DeleteAsset x \<in> set new \<longrightarrow>
         x \<notin> fst ` set (assets st') \<or> (failed \<and> last new = DeleteAsset x)) \<and>
      (\<forall>x\<in>set (assets st). under s (fst x) \<longrightarrow>
         x \<in> set (assets st') \<or> DeleteAsset (fst x) \<in> set new) \<and>
      adds_near d st st')"

lemma effects_failed: "effects s d st False st' new \<Longrightarrow> effects s d st failed st' new"
  by (auto simp: effects_def)

lemma effects_seq:
  assumes e1: "effects s d st False st1 new1" and e2: "effects s d st1 failed st2 new2"
    and cd: "copies_deleted (new1 @ new2)" and sd: "\<not> under s d" and ds: "\<not> under d s"
  shows "effects s d st failed st2 (new1 @ new2)"
proof -
  from e1 have a1: "calls st1 = calls st @ new1" and c1: "\<forall>c\<in>set new1. concerns s d c"
    and g1: "\<forall>x. DeleteAsset x \<in> set new1 \<longrightarrow> x \<notin> fst ` set (assets st1)"
    and k1: "\<forall>x\<in>set (assets st). under s (fst x) \<longrightarrow>
               x \<in> set (assets st1) \<or> DeleteAsset (fst x) \<in> set new1"
    and n1: "adds_near d st st1"
    by (simp_all add: effects_def)
  from e2 have a2: "calls st2 = calls st1 @ new2" and c2: "\<forall>c\<in>set new2. concerns s d c"
    and g2: "\<forall>x. DeleteAsset x \<in> set new2 \<longrightarrow>
               x \<notin> fst ` set (assets st2) \<or> (failed \<and> last new2 = DeleteAsset x)"
    and k2: "\<forall>x\<in>set (assets st1). under s (fst x) \<longrightarrow>
               x \<in> set (assets st2) \<or> DeleteAsset (fst x) \<in> set new2"
    and n2: "adds_near d st1 st2"
    by (simp_all add: effects_def)
  have gone: "x \<notin> fst ` set (assets st2) \<or> (failed \<and> last (new1 @ new2) = DeleteAsset x)"
    if m: "DeleteAsset x \<in> set (new1 @ new2)" for x
  proof (cases "DeleteAsset x \<in> set new2")
    case True
    then have "new2 \<noteq> []" by auto
    then show ?thesis using g2 True by simp
  next
    case False
    then have m1: "DeleteAsset x \<in> set new1" using m by simp
    then have "concerns s d (DeleteAsset x)" using c1 by blast
    then have u: "under s x" by simp
    have n: "x \<notin> fst ` set (assets st1)" using g1 m1 by simp
    have "x \<notin> fst ` set (assets st2)"
    proof
      assume "x \<in> fst ` set (assets st2)"
      then obtain y where y: "y \<in> set (assets st2)" "fst y = x" by auto
      have "y \<in> set (assets st1)" using no_new_under[OF n2 sd ds y(1)] u y(2) by simp
      then show False using n y(2) by force
    qed
    then show ?thesis by simp
  qed
  have kept: "x \<in> set (assets st2) \<or> DeleteAsset (fst x) \<in> set (new1 @ new2)"
    if "x \<in> set (assets st)" "under s (fst x)" for x
    using that k1 k2 by auto
  have "calls st2 = calls st @ (new1 @ new2)" using a1 a2 by simp
  moreover have "\<forall>c\<in>set (new1 @ new2). concerns s d c" using c1 c2 by auto
  moreover have "adds_near d st st2" using adds_near_trans[OF n1 n2] .
  ultimately show ?thesis unfolding effects_def using cd gone kept by blast
qed

lemma effects_adds:
  assumes "calls st' = calls st @ new"
    and "\<forall>c\<in>set new. \<exists>i. c = CreateAsset i \<and> (under i d \<or> under d i)"
    and "set (assets st) \<subseteq> set (assets st')" and "adds_near d st st'"
  shows "effects s d st failed st' new"
proof -
  have nc: "\<forall>c\<in>set new. \<not> is_copy c" using assms(2) by auto
  have "\<forall>c\<in>set new. concerns s d c" using assms(2) by auto
  moreover have "\<forall>x. DeleteAsset x \<notin> set new" using assms(2) by auto
  ultimately show ?thesis
    unfolding effects_def using assms(1,3,4) copies_deleted_no_copy[OF nc] by blast
qed

lemma effects_none: "effects s d st failed st []"
  by (simp add: effects_def adds_near_def)

lemma mkdir_effects:
  assumes mk: "mkdir st (Asset_init z) with_parents exist_ok = (r, st')"
    and ab: "is_absolute (Asset_init z) False = Inr True \<Longrightarrow> under (as_posix (Asset_init z)) d"
  shows "\<exists>new. effects s d st failed st' new \<and> (\<forall>c\<in>set new. \<not> is_copy c)"
proof -
  from mkdir_calls[OF mk] obtain new where
    n: "calls st' = calls st @ new"
       "\<forall>c\<in>set new. \<exists>i. c = CreateAsset i \<and> under i (as_posix (Asset_init z)) \<and>
                              is_absolute (Asset_init z) False = Inr True"
       "\<forall>x\<in>set (assets st'). x \<in> set (assets st) \<or>
              (under (fst x) (as_posix (Asset_init z)) \<and>
               is_absolute (Asset_init z) False = Inr True)"
    by blast
  have c: "\<forall>c\<in>set new. \<exists>i. c = CreateAsset i \<and> (under i d \<or> under d i)"
    using n(2) ab under_trans by blast
  have a: "adds_near d st st'"
    unfolding adds_near_def using n(3) ab under_trans by blast
  have sub: "set (assets st) \<subseteq> set (assets st')" using mkdir_effect[OF mk] by simp
  have "\<forall>c\<in>set new. \<not> is_copy c" using n(2) by auto
  then show ?thesis using effects_adds[OF n(1) c sub a] by blast
qed

lemma unlink_effects:
  assumes ul: "unlink st a = (u, st')" and a: "as_posix a = s"
  shows "\<exists>new. effects s d st (isl u) st' new \<and> (new = [] \<or> new = [DeleteAsset s]) \<and>
           (\<not> isl u \<longrightarrow> new = [DeleteAsset s])"
proof -
  from unlink_calls[OF ul] show ?thesis
  proof
    assume "calls st' = calls st \<and> assets st' = assets st \<and> (\<exists>e. u = Inl e)"
    then have "effects s d st (isl u) st' []"
      by (auto simp: effects_def adds_near_def)
    moreover have "isl u" using \<open>calls st' = calls st \<and> assets st' = assets st \<and> (\<exists>e. u = Inl e)\<close> by auto
    ultimately show ?thesis by blast
  next
    assume l: "calls st' = calls st @ [DeleteAsset (as_posix a)]"
    from unlink_effect[OF ul] have "effects s d st (isl u) st' [DeleteAsset s]"
    proof
      assume "(\<exists>e. u = Inl e) \<and> assets st' = assets st"
      then show ?thesis using l a by (auto simp: effects_def adds_near_def under_refl)
    next
      assume "u = Inr () \<and> assets st' = filter (\<lambda>x. fst x \<noteq> as_posix a) (assets st)"
      then show ?thesis using l a by (auto simp: effects_def adds_near_def under_refl)
    qed
    then show ?thesis by blast
  qed
qed

lemma copy_effects:
  assumes cp: "copyAsset st s d = (c, st')" and sd: "\<not> under s d"
  shows "effects s d st (isl c) st' [CopyAsset s d]"
proof -
  have l: "calls st' = calls st @ [CopyAsset s d]" using copyAsset_calls[OF cp] .
  have cc: "concerns s d (CopyAsset s d)" by (simp add: under_refl relocate_def)
  from copyAsset_effect[OF cp] show ?thesis
  proof
    assume "(\<exists>e. c = Inl e) \<and> assets st' = assets st"
    then show ?thesis using l cc by (auto simp: effects_def adds_near_def)
  next
    assume "\<exists>t. c = Inr () \<and> map_of (assets st) s = Some t \<and> assets st' = put d t (assets st)"
    then obtain t where t: "assets st' = put d t (assets st)" by blast
    have k: "x \<in> set (assets st')" if "x \<in> set (assets st)" "under s (fst x)" for x
    proof -
      have "fst x \<noteq> d" using that(2) sd by auto
      then show ?thesis using put_other[OF that(1)] t by simp
    qed
    have n: "adds_near d st st'"
      unfolding adds_near_def using put_set[of d t "assets st"] t under_refl[of d] by auto
    show ?thesis unfolding effects_def using l cc k n by simp
  qed
qed

lemma effects_child:
  assumes e: "effects (s @ CHR ''/'' # name) (d @ CHR ''/'' # name) st failed st' new"
    and nm: "CHR ''/'' \<notin> set name" and sd: "\<not> under s d" and ds: "\<not> under d s"
    and fr: "frame (s @ CHR ''/'' # name) (d @ CHR ''/'' # name) st st'"
  shows "effects s d st failed st' new"
proof -
  let ?c = "s @ CHR ''/'' # name" and ?c' = "d @ CHR ''/'' # name"
  have sc: "under s ?c" and dc: "under d ?c'" by (auto simp: under_iff)
  from e have a: "calls st' = calls st @ new" and cd: "copies_deleted new"
    and c: "\<forall>k\<in>set new. concerns ?c ?c' k"
    and g: "\<forall>x. DeleteAsset x \<in> set new \<longrightarrow>
               x \<notin> fst ` set (assets st') \<or> (failed \<and> last new = DeleteAsset x)"
    and k: "\<forall>x\<in>set (assets st). under ?c (fst x) \<longrightarrow>
               x \<in> set (assets st') \<or> DeleteAsset (fst x) \<in> set new"
    and n: "adds_near ?c' st st'"
    by (simp_all add: effects_def)
  have c': "concerns s d k" if "k \<in> set new" for k
  proof (cases k)
    case (CreateAsset i)
    then have "under i ?c' \<or> under ?c' i" using c that by auto
    then have "i = ?c' \<or> under i d \<or> under d i"
      using under_child[OF nm, of i d] dc under_trans by blast
    then show ?thesis using CreateAsset dc by auto
  next
    case (CopyAsset x y)
    then have xy: "under ?c x" "y = relocate ?c ?c' x" using c that by auto
    then show ?thesis using CopyAsset relocate_child[OF xy(1), of d] sc under_trans by auto
  next
    case (DeleteAsset x)
    then have "under ?c x" using c that by auto
    then show ?thesis using DeleteAsset sc under_trans by auto
  qed
  have k': "x \<in> set (assets st') \<or> DeleteAsset (fst x) \<in> set new"
    if x: "x \<in> set (assets st)" "under s (fst x)" for x
  proof (cases "under ?c (fst x)")
    case True
    then show ?thesis using k x(1) by simp
  next
    case False
    have "\<not> under ?c' (fst x)" using unrelated_sub(2)[OF sd ds x(2) dc] .
    then show ?thesis using fr x(1) False by (auto simp: frame_def)
  qed
  show ?thesis
    unfolding effects_def using a cd c' g k' adds_near_child[OF n nm] by blast
qed

subsection \<open>The requests of a move, and what they leave\<close>

definition move_log :: "nat \<Rightarrow> bool \<Rightarrow> bool" where
  "move_log n overwrite =
     (\<forall>st s d r st'.
        wf_store st \<longrightarrow> canonical_id s \<longrightarrow> canonical_id d \<longrightarrow> \<not> under s d \<longrightarrow> \<not> under d s \<longrightarrow>
        move n st (Asset_init s) (Asset_init d) overwrite = Some (r, st') \<longrightarrow>
        (\<exists>new. effects s d st (isl r) st' new \<and>
                (\<not> isl r \<longrightarrow> new \<noteq> [] \<and> last new = DeleteAsset s)))"

lemma move_children_log:
  assumes ih: "move_log n overwrite"
    and s: "canonical_id s" and d: "canonical_id d"
    and sd: "\<not> under s d" and ds: "\<not> under d s"
    and todo: "\<forall>x\<in>set todo. child_of s (fst x) \<and> canonical_id (fst x)"
    and wf: "wf_store st"
    and run: "for_each
                (\<lambda>asset s'.
                   case relative_to (path asset) (path (Asset_init s)) of
                     Inl e \<Rightarrow> Some (Inl e, s')
                   | Inr rel \<Rightarrow>
                       (case move n s' asset (truediv (Asset_init d) (path_str rel)) overwrite of
                          None \<Rightarrow> None
                        | Some (Inl e, s'') \<Rightarrow> Some (Inl e, s'')
                        | Some (Inr r, s'') \<Rightarrow> Some (Inr (), s'')))
                (map (\<lambda>x. Asset_init (fst x)) todo) st = Some (r, st')"
  shows "\<exists>new. effects s d st (isl r) st' new \<and> (new = [] \<or> isl r \<or> \<not> is_copy (last new))"
  using todo wf run
proof (induction todo arbitrary: st)
  case Nil
  then have "st' = st" "r = Inr ()" by auto
  then show ?case using effects_none[of s d st "isl r"] by auto
next
  case (Cons x todo)
  let ?c = "fst x"
  let ?c' = "relocate s d ?c"
  have xc: "child_of s ?c" "canonical_id ?c" using Cons.prems(1) by auto
  from child_paths[OF s d xc] obtain name where
    n: "?c = s @ CHR ''/'' # name" "CHR ''/'' \<notin> set name" "?c' = d @ CHR ''/'' # name"
    and kc': "canonical_id ?c'"
    and rel: "relative_to (path (Asset_init ?c)) (path (Asset_init s)) = Inr (PurePosixPath [] [name])"
    and td: "truediv (Asset_init d) (path_str (PurePosixPath [] [name])) = Asset_init ?c'"
    by blast
  have un: "\<not> under ?c ?c'" "\<not> under ?c' ?c"
    using unrelated_children[OF sd ds n(2)] n by simp_all
  obtain o1 where o1: "move n st (Asset_init ?c) (Asset_init ?c') overwrite = o1" by simp
  show ?case
  proof (cases o1)
    case None
    then show ?thesis using Cons.prems(3) o1 rel td by simp
  next
    case (Some res)
    obtain r1 st1 where res: "res = (r1, st1)" by (cases res)
    have mv: "move n st (Asset_init ?c) (Asset_init ?c') overwrite = Some (r1, st1)"
      using o1 Some res by simp
    from move_ok_all[of n overwrite, unfolded move_ok_def, rule_format, OF Cons.prems(2) xc(2) kc' un mv]
    have w1: "wf_store st1" and f1: "frame ?c ?c' st st1" by simp_all
    from ih[unfolded move_log_def, rule_format, OF Cons.prems(2) xc(2) kc' un mv]
    obtain new1 where e1: "effects ?c ?c' st (isl r1) st1 new1"
      and l1: "\<not> isl r1 \<longrightarrow> new1 \<noteq> [] \<and> last new1 = DeleteAsset ?c"
      by blast
    have e1': "effects s d st (isl r1) st1 new1"
      using effects_child[of s name d st "isl r1" st1 new1] e1 f1 n sd ds by simp
    show ?thesis
    proof (cases r1)
      case (Inl e)
      then have fin: "st' = st1" "r = Inl e" using Cons.prems(3) mv rel td by simp_all
      then show ?thesis using e1' Inl by auto
    next
      case (Inr q)
      then have rest: "for_each
                (\<lambda>asset s'.
                   case relative_to (path asset) (path (Asset_init s)) of
                     Inl e \<Rightarrow> Some (Inl e, s')
                   | Inr rel \<Rightarrow>
                       (case move n s' asset (truediv (Asset_init d) (path_str rel)) overwrite of
                          None \<Rightarrow> None
                        | Some (Inl e, s'') \<Rightarrow> Some (Inl e, s'')
                        | Some (Inr r, s'') \<Rightarrow> Some (Inr (), s'')))
                (map (\<lambda>x. Asset_init (fst x)) todo) st1 = Some (r, st')"
        using Cons.prems(3) mv rel td by simp
      have t2: "\<forall>x\<in>set todo. child_of s (fst x) \<and> canonical_id (fst x)"
        using Cons.prems(1) by auto
      from Cons.IH[OF t2 w1 rest] obtain new2 where
        e2: "effects s d st1 (isl r) st' new2"
        and l2: "new2 = [] \<or> isl r \<or> \<not> is_copy (last new2)"
        by blast
      have ok1: "new1 \<noteq> []" "last new1 = DeleteAsset ?c" using l1 Inr by simp_all
      have e1f: "effects s d st False st1 new1" using e1' Inr by simp
      have cd1: "copies_deleted new1" using e1' by (simp add: effects_def)
      have cd2: "copies_deleted new2" using e2 by (simp add: effects_def)
      have cd: "copies_deleted (new1 @ new2)"
        using copies_deleted_append[OF cd1 cd2] ok1 by simp
      have e: "effects s d st (isl r) st' (new1 @ new2)"
        using effects_seq[OF e1f e2 cd sd ds] .
      have "new1 @ new2 = [] \<or> isl r \<or> \<not> is_copy (last (new1 @ new2))"
        using l2 ok1 by (cases "new2 = []") auto
      then show ?thesis using e by blast
    qed
  qed
qed

lemma move_log_Suc:
  assumes ih: "move_log n overwrite"
  shows "move_log (Suc n) overwrite"
  unfolding move_log_def
proof (intro allI impI)
  fix st s d r st'
  assume wf: "wf_store st" and s: "canonical_id s" and d: "canonical_id d"
    and sd: "\<not> under s d" and ds: "\<not> under d s"
    and mv: "move (Suc n) st (Asset_init s) (Asset_init d) overwrite = Some (r, st')"
  let ?S = "Asset_init s" and ?D = "Asset_init d"
  let ?goal = "\<exists>new. effects s d st (isl r) st' new \<and>
                (\<not> isl r \<longrightarrow> new \<noteq> [] \<and> last new = DeleteAsset s)"
  have ps: "as_posix ?S = s" and pd: "as_posix ?D = d"
    using canonical_as_posix s d by simp_all
  obtain z where z: "parent ?D = Asset_init z" using parent_Asset_init[OF d] by blast
  have failed: ?goal if "effects s d st True st' new" "\<exists>e. r = Inl e" for new
    using that by auto
  show ?goal
  proof (cases "exists st ?D False = Inr True \<and> \<not> overwrite")
    case True
    then have "st' = st" "\<exists>e. r = Inl e" using mv by auto
    then show ?thesis using failed[of "[]"] effects_none[of s d st True] by simp
  next
    case False
    obtain m1 st1 where mk1: "mkdir st (Asset_init z) True True = (m1, st1)"
      by (cases "mkdir st (Asset_init z) True True")
    have w1: "wf_store st1" using mkdir_effect[OF mk1] wf by auto
    have ab1: "under (as_posix (Asset_init z)) d" if "is_absolute (Asset_init z) False = Inr True"
      using parent_above[OF d] that z by simp
    from mkdir_effects[OF mk1 ab1, of s False] obtain new1 where
      e1: "effects s d st False st1 new1" and nc1: "\<forall>c\<in>set new1. \<not> is_copy c"
      by blast
    have last1: "new1 = [] \<or> \<not> is_copy (last new1)" using nc1 by auto
    show ?thesis
    proof (cases m1)
      case (Inl e)
      then have "st' = st1" "r = Inl e" using mv False mk1 z by auto
      then show ?thesis using failed[OF effects_failed] e1 by blast
    next
      case m1: (Inr p1)
      show ?thesis
      proof (cases "is_folder st1 ?S False")
        case (Inl e)
        then have "st' = st1" "r = Inl e" using mv False mk1 z m1 by auto
        then show ?thesis using failed[OF effects_failed] e1 by blast
      next
        case fo: (Inr folder)
        show ?thesis
        proof (cases folder)
          case True
          obtain m2 st2 where mk2: "mkdir st1 ?D True True = (m2, st2)"
            by (cases "mkdir st1 ?D True True")
          have w2: "wf_store st2" using mkdir_effect[OF mk2] w1 by auto
          have ab2: "under (as_posix ?D) d" by (simp add: pd under_refl)
          from mkdir_effects[OF mk2 ab2, of s False] obtain new2 where
            e2: "effects s d st1 False st2 new2" and nc2: "\<forall>c\<in>set new2. \<not> is_copy c"
            by blast
          have nc12: "\<forall>c\<in>set (new1 @ new2). \<not> is_copy c" using nc1 nc2 by auto
          have e12: "effects s d st False st2 (new1 @ new2)"
            using effects_seq[OF e1 e2 copies_deleted_no_copy[OF nc12] sd ds] .
          have last12: "new1 @ new2 = [] \<or> \<not> is_copy (last (new1 @ new2))"
            using nc12 last_in_set[of "new1 @ new2"] by blast
          show ?thesis
          proof (cases m2)
            case (Inl e)
            then have "st' = st2" "r = Inl e" using mv False mk1 z m1 fo True mk2 by auto
            then show ?thesis using failed[OF effects_failed] e12 by blast
          next
            case m2: (Inr p2)
            show ?thesis
            proof (cases "iterdir st2 ?S False")
              case (Inl e)
              then have "st' = st2" "r = Inl e" using mv False mk1 z m1 fo True mk2 m2 by auto
              then show ?thesis using failed[OF effects_failed] e12 by blast
            next
              case it: (Inr children)
              then have ch: "children = map (\<lambda>x. Asset_init (fst x)) (listAssets st2 s)"
                by (auto simp: iterdir_def ps split: sum.splits if_splits)
              let ?body = "\<lambda>asset s'.
                   case relative_to (path asset) (path (Asset_init s)) of
                     Inl e \<Rightarrow> Some (Inl e, s')
                   | Inr rel \<Rightarrow>
                       (case move n s' asset (truediv (Asset_init d) (path_str rel)) overwrite of
                          None \<Rightarrow> None
                        | Some (Inl e, s'') \<Rightarrow> Some (Inl e, s'')
                        | Some (Inr r, s'') \<Rightarrow> Some (Inr (), s''))"
              obtain lo where lo: "for_each ?body (map (\<lambda>x. Asset_init (fst x)) (listAssets st2 s)) st2 = lo"
                by simp
              have mv2: "(case lo of
                     None \<Rightarrow> None
                   | Some (Inl e, st3) \<Rightarrow> Some (Inl e, st3)
                   | Some (Inr u, st3) \<Rightarrow>
                       (case unlink st3 ?S of
                          (Inl e, st4) \<Rightarrow> Some (Inl e, st4)
                        | (Inr u, st4) \<Rightarrow> Some (Inr ?D, st4))) = Some (r, st')"
                using mv False mk1 z m1 fo True mk2 m2 it ch lo by simp
              then obtain r3 st3 where lo3: "lo = Some (r3, st3)"
                by (cases lo) auto
              have todo: "\<forall>x\<in>set (listAssets st2 s). child_of s (fst x) \<and> canonical_id (fst x)"
                using wf_store_canonical[OF w2] by (auto simp: listAssets_member)
              from move_children_log[OF ih s d sd ds todo w2 lo[unfolded lo3]]
              obtain new3 where e3: "effects s d st2 (isl r3) st3 new3"
                and l3: "new3 = [] \<or> isl r3 \<or> \<not> is_copy (last new3)"
                by blast
              have cd3: "copies_deleted new3" using e3 by (simp add: effects_def)
              have cd123: "copies_deleted ((new1 @ new2) @ new3)"
                using copies_deleted_append[OF copies_deleted_no_copy[OF nc12] cd3 last12] .
              have e123: "effects s d st (isl r3) st3 ((new1 @ new2) @ new3)"
                using effects_seq[OF e12 e3 cd123 sd ds] .
              show ?thesis
              proof (cases r3)
                case (Inl e)
                then have "st' = st3" "r = Inl e" using mv2 lo3 by auto
                then show ?thesis using failed e123 Inl by auto
              next
                case r3: (Inr u3)
                obtain u4 st4 where ul: "unlink st3 ?S = (u4, st4)" by (cases "unlink st3 ?S")
                have fin: "st' = st4" "isl r = isl u4"
                  using mv2 lo3 r3 ul by (auto split: sum.splits)
                from unlink_effects[OF ul ps, of d] obtain new4 where
                  e4: "effects s d st3 (isl u4) st4 new4"
                  and sh4: "new4 = [] \<or> new4 = [DeleteAsset s]"
                  and ok4: "\<not> isl u4 \<longrightarrow> new4 = [DeleteAsset s]"
                  by blast
                have cd4: "copies_deleted new4" using sh4 by auto
                have last123: "(new1 @ new2) @ new3 = [] \<or> \<not> is_copy (last ((new1 @ new2) @ new3))"
                  using l3 r3 last12 by (cases "new3 = []") auto
                have cd: "copies_deleted (((new1 @ new2) @ new3) @ new4)"
                  using copies_deleted_append[OF cd123 cd4 last123] .
                have e123f: "effects s d st False st3 ((new1 @ new2) @ new3)"
                  using e123 r3 by simp
                have e: "effects s d st (isl u4) st4 (((new1 @ new2) @ new3) @ new4)"
                  using effects_seq[OF e123f e4 cd sd ds] .
                have "\<not> isl u4 \<longrightarrow> ((new1 @ new2) @ new3) @ new4 \<noteq> [] \<and>
                        last (((new1 @ new2) @ new3) @ new4) = DeleteAsset s"
                  using ok4 by auto
                then show ?thesis using e fin by auto
              qed
            qed
          qed
        next
          case False
          obtain c st2 where cp: "copyAsset st1 s d = (c, st2)" by (cases "copyAsset st1 s d")
          have mv2: "(case Some (c, st2) of
                     None \<Rightarrow> None
                   | Some (Inl e, st3) \<Rightarrow> Some (Inl e, st3)
                   | Some (Inr u, st3) \<Rightarrow>
                       (case unlink st3 ?S of
                          (Inl e, st4) \<Rightarrow> Some (Inl e, st4)
                        | (Inr u, st4) \<Rightarrow> Some (Inr ?D, st4))) = Some (r, st')"
            using mv \<open>\<not> (exists st ?D False = Inr True \<and> \<not> overwrite)\<close> mk1 z m1 fo False cp ps pd
            by simp
          have e2: "effects s d st1 (isl c) st2 [CopyAsset s d]" using copy_effects[OF cp sd] .
          show ?thesis
          proof (cases c)
            case (Inl e)
            then have fin: "st' = st2" "r = Inl e" using mv2 by auto
            have cd: "copies_deleted (new1 @ [CopyAsset s d])"
              using copies_deleted_append[OF copies_deleted_no_copy[OF nc1] _ last1] by simp
            have "effects s d st (isl c) st2 (new1 @ [CopyAsset s d])"
              using effects_seq[OF e1 e2 cd sd ds] .
            then show ?thesis using failed fin Inl by auto
          next
            case c: (Inr u2)
            obtain u4 st4 where ul: "unlink st2 ?S = (u4, st4)" by (cases "unlink st2 ?S")
            have fin: "st' = st4" "isl r = isl u4"
              using mv2 c ul by (auto split: sum.splits)
            from unlink_effects[OF ul ps, of d] obtain new4 where
              e4: "effects s d st2 (isl u4) st4 new4"
              and sh4: "new4 = [] \<or> new4 = [DeleteAsset s]"
              and ok4: "\<not> isl u4 \<longrightarrow> new4 = [DeleteAsset s]"
              by blast
            have cd24: "copies_deleted ([CopyAsset s d] @ new4)" using sh4 by auto
            have e2f: "effects s d st1 False st2 [CopyAsset s d]" using e2 c by simp
            have e24: "effects s d st1 (isl u4) st4 ([CopyAsset s d] @ new4)"
              using effects_seq[OF e2f e4 cd24 sd ds] .
            have cd: "copies_deleted (new1 @ ([CopyAsset s d] @ new4))"
              using copies_deleted_append[OF copies_deleted_no_copy[OF nc1] cd24 last1] .
            have e: "effects s d st (isl u4) st4 (new1 @ ([CopyAsset s d] @ new4))"
              using effects_seq[OF e1 e24 cd sd ds] .
            have "\<not> isl u4 \<longrightarrow> new1 @ ([CopyAsset s d] @ new4) \<noteq> [] \<and>
                    last (new1 @ ([CopyAsset s d] @ new4)) = DeleteAsset s"
              using ok4 by auto
            then show ?thesis using e fin by auto
          qed
        qed
      qed
    qed
  qed
qed

lemma move_log_all: "move_log n overwrite"
proof (induction n)
  case 0
  show ?case by (simp add: move_log_def)
next
  case (Suc n)
  then show ?case by (rule move_log_Suc)
qed

subsection \<open>A move returns\<close>

text \<open>
  The number of records at or below an identifier. It bounds the depth of the recursion
  of \<open>move\<close>: the records below a child are fewer, and a move adds no record below its
  source.
\<close>

definition below :: "string \<Rightarrow> remote \<Rightarrow> nat" where
  "below s st = length (filter (\<lambda>x. under s (fst x)) (assets st))"

lemma below_mono:
  assumes "wf_store st'"
    and "\<And>x. x \<in> set (assets st') \<Longrightarrow> under c (fst x) \<Longrightarrow> x \<in> set (assets st)"
  shows "below c st' \<le> below c st"
proof -
  let ?P = "\<lambda>x. under c (fst x)"
  have "distinct (assets st')" using assms(1) by (simp add: wf_store_def distinct_map)
  then have "distinct (filter ?P (assets st'))" by simp
  then have "length (filter ?P (assets st')) = card (set (filter ?P (assets st')))"
    by (rule distinct_card[symmetric])
  also have "\<dots> \<le> card (set (filter ?P (assets st)))"
    using assms(2) by (intro card_mono) auto
  also have "\<dots> \<le> length (filter ?P (assets st))" by (rule card_length)
  finally show ?thesis by (simp add: below_def)
qed

lemma below_child:
  assumes "(s, t) \<in> set (assets st)"
  shows "below (s @ CHR ''/'' # name) st < below s st"
proof -
  have sc: "under s (s @ CHR ''/'' # name)" by (auto simp: under_iff)
  have "\<not> under (s @ CHR ''/'' # name) s" using under_length[of "s @ CHR ''/'' # name" s] by auto
  then show ?thesis
    unfolding below_def
    using assms sc under_trans under_refl
    by (intro length_filter_strict[of "(s, t)"]) auto
qed

definition move_returns :: "nat \<Rightarrow> bool \<Rightarrow> bool" where
  "move_returns n overwrite =
     (\<forall>st s d.
        wf_store st \<longrightarrow> canonical_id s \<longrightarrow> canonical_id d \<longrightarrow> \<not> under s d \<longrightarrow> \<not> under d s \<longrightarrow>
        below s st < n \<longrightarrow>
        (\<exists>y. move n st (Asset_init s) (Asset_init d) overwrite = Some y))"

lemma move_children_return:
  assumes ih: "move_returns n overwrite"
    and s: "canonical_id s" and d: "canonical_id d"
    and sd: "\<not> under s d" and ds: "\<not> under d s"
    and todo: "\<forall>x\<in>set todo. child_of s (fst x) \<and> canonical_id (fst x)"
    and wf: "wf_store st"
    and bound: "\<forall>x\<in>set todo. below (fst x) st < n"
  shows "\<exists>y. for_each
                (\<lambda>asset s'.
                   case relative_to (path asset) (path (Asset_init s)) of
                     Inl e \<Rightarrow> Some (Inl e, s')
                   | Inr rel \<Rightarrow>
                       (case move n s' asset (truediv (Asset_init d) (path_str rel)) overwrite of
                          None \<Rightarrow> None
                        | Some (Inl e, s'') \<Rightarrow> Some (Inl e, s'')
                        | Some (Inr r, s'') \<Rightarrow> Some (Inr (), s'')))
                (map (\<lambda>x. Asset_init (fst x)) todo) st = Some y"
  using todo wf bound
proof (induction todo arbitrary: st)
  case Nil
  then show ?case by simp
next
  case (Cons x todo)
  let ?c = "fst x"
  let ?c' = "relocate s d ?c"
  have xc: "child_of s ?c" "canonical_id ?c" using Cons.prems(1) by auto
  from child_paths[OF s d xc] obtain name where
    n: "?c = s @ CHR ''/'' # name" "CHR ''/'' \<notin> set name" "?c' = d @ CHR ''/'' # name"
    and kc': "canonical_id ?c'"
    and rel: "relative_to (path (Asset_init ?c)) (path (Asset_init s)) = Inr (PurePosixPath [] [name])"
    and td: "truediv (Asset_init d) (path_str (PurePosixPath [] [name])) = Asset_init ?c'"
    by blast
  have un: "\<not> under ?c ?c'" "\<not> under ?c' ?c"
    using unrelated_children[OF sd ds n(2)] n by simp_all
  have dc': "under d ?c'" using n(3) by (auto simp: under_iff)
  have b: "below ?c st < n" using Cons.prems(3) by simp
  from ih[unfolded move_returns_def, rule_format, OF Cons.prems(2) xc(2) kc' un b]
  obtain r1 st1 where mv: "move n st (Asset_init ?c) (Asset_init ?c') overwrite = Some (r1, st1)"
    by force
  from move_ok_all[of n overwrite, unfolded move_ok_def, rule_format, OF Cons.prems(2) xc(2) kc' un mv]
  have w1: "wf_store st1" by simp
  from move_log_all[of n overwrite, unfolded move_log_def, rule_format, OF Cons.prems(2) xc(2) kc' un mv]
  have a1: "adds_near ?c' st st1" by (auto simp: effects_def)
  show ?case
  proof (cases r1)
    case (Inl e)
    then show ?thesis using mv rel td by simp
  next
    case (Inr q)
    have t2: "\<forall>x\<in>set todo. child_of s (fst x) \<and> canonical_id (fst x)"
      using Cons.prems(1) by auto
    have b2: "\<forall>y\<in>set todo. below (fst y) st1 < n"
    proof
      fix y assume y: "y \<in> set todo"
      then have "child_of s (fst y)" using t2 by simp
      then have sy: "under s (fst y)" by (auto simp: child_of_iff under_iff)
      have u: "\<not> under (fst y) ?c'" "\<not> under ?c' (fst y)"
        using unrelated_sub[OF sd ds sy dc'] by simp_all
      have "below (fst y) st1 \<le> below (fst y) st"
        using below_mono[OF w1] no_new_under[OF a1 u] by blast
      then show "below (fst y) st1 < n" using Cons.prems(3) y by fastforce
    qed
    from Cons.IH[OF t2 w1 b2] show ?thesis using mv rel td Inr by simp
  qed
qed

lemma move_returns_Suc:
  assumes ih: "move_returns n overwrite"
  shows "move_returns (Suc n) overwrite"
  unfolding move_returns_def
proof (intro allI impI)
  fix st s d
  assume wf: "wf_store st" and s: "canonical_id s" and d: "canonical_id d"
    and sd: "\<not> under s d" and ds: "\<not> under d s"
    and bound: "below s st < Suc n"
  let ?S = "Asset_init s" and ?D = "Asset_init d"
  let ?goal = "\<exists>y. move (Suc n) st ?S ?D overwrite = Some y"
  have ps: "as_posix ?S = s" and pd: "as_posix ?D = d"
    using canonical_as_posix s d by simp_all
  obtain z where z: "parent ?D = Asset_init z" using parent_Asset_init[OF d] by blast
  show ?goal
  proof (cases "exists st ?D False = Inr True \<and> \<not> overwrite")
    case True
    then show ?thesis by simp
  next
    case False
    obtain m1 st1 where mk1: "mkdir st (Asset_init z) True True = (m1, st1)"
      by (cases "mkdir st (Asset_init z) True True")
    have w1: "wf_store st1" using mkdir_effect[OF mk1] wf by auto
    have ab1: "under (as_posix (Asset_init z)) d" if "is_absolute (Asset_init z) False = Inr True"
      using parent_above[OF d] that z by simp
    from mkdir_effects[OF mk1 ab1, of s False]
    have n1: "adds_near d st st1" by (auto simp: effects_def)
    show ?thesis
    proof (cases m1)
      case (Inl e)
      then show ?thesis using False mk1 z by simp
    next
      case m1: (Inr p1)
      show ?thesis
      proof (cases "is_folder st1 ?S False")
        case (Inl e)
        then show ?thesis using False mk1 z m1 by simp
      next
        case fo: (Inr folder)
        have ftype: "folder = (map_of (assets st1) s = Some ''FOLDER'')"
          using is_folder_quiet[OF fo] ps by simp
        show ?thesis
        proof (cases folder)
          case True
          obtain m2 st2 where mk2: "mkdir st1 ?D True True = (m2, st2)"
            by (cases "mkdir st1 ?D True True")
          have w2: "wf_store st2" and sub2: "set (assets st1) \<subseteq> set (assets st2)"
            using mkdir_effect[OF mk2] w1 by auto
          have ab2: "under (as_posix ?D) d" by (simp add: pd under_refl)
          from mkdir_effects[OF mk2 ab2, of s False]
          have n2: "adds_near d st1 st2" by (auto simp: effects_def)
          have n12: "adds_near d st st2" using adds_near_trans[OF n1 n2] .
          show ?thesis
          proof (cases m2)
            case (Inl e)
            then show ?thesis using False mk1 z m1 fo True mk2 by simp
          next
            case m2: (Inr p2)
            show ?thesis
            proof (cases "iterdir st2 ?S False")
              case (Inl e)
              then show ?thesis using False mk1 z m1 fo True mk2 m2 by simp
            next
              case it: (Inr children)
              then have ch: "children = map (\<lambda>x. Asset_init (fst x)) (listAssets st2 s)"
                by (auto simp: iterdir_def ps split: sum.splits if_splits)
              have todo: "\<forall>x\<in>set (listAssets st2 s). child_of s (fst x) \<and> canonical_id (fst x)"
                using wf_store_canonical[OF w2] by (auto simp: listAssets_member)
              have sF: "(s, ''FOLDER'') \<in> set (assets st2)"
                using True ftype sub2 by (auto dest: map_of_SomeD)
              have bs: "below s st2 \<le> below s st"
                using below_mono[OF w2] no_new_under[OF n12 sd ds] by blast
              have bound2: "\<forall>x\<in>set (listAssets st2 s). below (fst x) st2 < n"
              proof
                fix x assume "x \<in> set (listAssets st2 s)"
                then have "child_of s (fst x)" using todo by simp
                then obtain name where "fst x = s @ CHR ''/'' # name" using child_of_iff by blast
                then have "below (fst x) st2 < below s st2" using below_child[OF sF] by simp
                then show "below (fst x) st2 < n" using bs bound by simp
              qed
              from move_children_return[OF ih s d sd ds todo w2 bound2]
              obtain r3 st3 where lo: "for_each
                (\<lambda>asset s'.
                   case relative_to (path asset) (path (Asset_init s)) of
                     Inl e \<Rightarrow> Some (Inl e, s')
                   | Inr rel \<Rightarrow>
                       (case move n s' asset (truediv (Asset_init d) (path_str rel)) overwrite of
                          None \<Rightarrow> None
                        | Some (Inl e, s'') \<Rightarrow> Some (Inl e, s'')
                        | Some (Inr r, s'') \<Rightarrow> Some (Inr (), s'')))
                (map (\<lambda>x. Asset_init (fst x)) (listAssets st2 s)) st2 = Some (r3, st3)"
                by force
              obtain u4 st4 where ul: "unlink st3 ?S = (u4, st4)" by (cases "unlink st3 ?S")
              show ?thesis
                using False mk1 z m1 fo True mk2 m2 it ch lo ul
                by (cases r3; cases u4) simp_all
            qed
          qed
        next
          case False
          obtain c st2 where cp: "copyAsset st1 s d = (c, st2)" by (cases "copyAsset st1 s d")
          obtain u4 st4 where ul: "unlink st2 ?S = (u4, st4)" by (cases "unlink st2 ?S")
          show ?thesis
            using \<open>\<not> (exists st ?D False = Inr True \<and> \<not> overwrite)\<close> mk1 z m1 fo False cp ps pd ul
            by (cases c; cases u4) simp_all
        qed
      qed
    qed
  qed
qed

lemma move_returns_all: "move_returns n overwrite"
proof (induction n)
  case 0
  show ?case by (simp add: move_returns_def)
next
  case (Suc n)
  then show ?case by (rule move_returns_Suc)
qed

text \<open>More fuel does not change what a move returns.\<close>

lemma for_each_mono:
  assumes "\<And>x s z. body x s = Some z \<Longrightarrow> body' x s = Some z"
    and "for_each body xs st = Some y"
  shows "for_each body' xs st = Some y"
  using assms(2)
proof (induction xs arbitrary: st)
  case Nil
  then show ?case by simp
next
  case (Cons x xs)
  then obtain r1 st1 where b: "body x st = Some (r1, st1)"
    by (cases "body x st") auto
  then have b': "body' x st = Some (r1, st1)" using assms(1) by simp
  show ?case
  proof (cases r1)
    case (Inl e)
    then show ?thesis using Cons.prems b b' by auto
  next
    case (Inr u)
    then have "for_each body xs st1 = Some y" using Cons.prems b by simp
    then have "for_each body' xs st1 = Some y" by (rule Cons.IH)
    then show ?thesis using Inr b' by simp
  qed
qed

lemma move_mono:
  "move n st a b overwrite = Some y \<Longrightarrow> move (Suc n) st a b overwrite = Some y"
proof (induction n arbitrary: st a b y)
  case 0
  then show ?case by simp
next
  case (Suc n)
  let ?body = "\<lambda>k asset s'.
                   case relative_to (path asset) (path a) of
                     Inl e \<Rightarrow> Some (Inl e, s')
                   | Inr rel \<Rightarrow>
                       (case move k s' asset (truediv b (path_str rel)) overwrite of
                          None \<Rightarrow> None
                        | Some (Inl e, s'') \<Rightarrow> Some (Inl e, s'')
                        | Some (Inr r, s'') \<Rightarrow> Some (Inr (), s''))"
  have body: "?body (Suc n) x s = Some z" if h: "?body n x s = Some z" for x s z
  proof (cases "relative_to (path x) (path a)")
    case (Inl e)
    then show ?thesis using h by simp
  next
    case (Inr rel)
    obtain w where w: "move n s x (truediv b (path_str rel)) overwrite = Some w"
      using h Inr by (cases "move n s x (truediv b (path_str rel)) overwrite") auto
    from Suc.IH[OF w] show ?thesis using h Inr w by simp
  qed
  have loop: "for_each (?body (Suc n)) xs s = Some z" if h: "for_each (?body n) xs s = Some z" for xs s z
    using for_each_mono[of "?body n" "?body (Suc n)", OF body h] .
  obtain r st' where y: "y = (r, st')" by (cases y)
  note prems = Suc.prems[unfolded y move.simps(2)[of n]]
  note step = move.simps(2)[of "Suc n" st a b overwrite]
  have "move (Suc (Suc n)) st a b overwrite = Some (r, st')"
  proof (cases "exists st b False = Inr True \<and> \<not> overwrite")
    case True
    then show ?thesis using prems unfolding step by (auto simp del: move.simps)
  next
    case False
    obtain m1 st1 where mk1: "mkdir st (parent b) True True = (m1, st1)"
      by (cases "mkdir st (parent b) True True")
    show ?thesis
    proof (cases m1)
      case (Inl e)
      then show ?thesis using prems False mk1 unfolding step by (auto simp del: move.simps)
    next
      case m1: (Inr p1)
      show ?thesis
      proof (cases "is_folder st1 a False")
        case (Inl e)
        then show ?thesis
          using prems False mk1 m1 unfolding step by (auto simp del: move.simps)
      next
        case fo: (Inr folder)
        show ?thesis
        proof (cases folder)
          case False
          then show ?thesis
            using prems \<open>\<not> (exists st b False = Inr True \<and> \<not> overwrite)\<close> mk1 m1 fo
            unfolding step by (auto simp del: move.simps)
        next
          case True
          obtain m2 st2 where mk2: "mkdir st1 b True True = (m2, st2)"
            by (cases "mkdir st1 b True True")
          show ?thesis
          proof (cases m2)
            case (Inl e)
            then show ?thesis
              using prems False mk1 m1 fo True mk2
              unfolding step by (auto simp del: move.simps)
          next
            case m2: (Inr p2)
            show ?thesis
            proof (cases "iterdir st2 a False")
              case (Inl e)
              then show ?thesis
                using prems False mk1 m1 fo True mk2 m2
                unfolding step by (auto simp del: move.simps)
            next
              case it: (Inr children)
              obtain lo where lo: "for_each (?body n) children st2 = lo" by simp
              have mv2: "(case lo of
                     None \<Rightarrow> None
                   | Some (Inl e, st3) \<Rightarrow> Some (Inl e, st3)
                   | Some (Inr u, st3) \<Rightarrow>
                       (case unlink st3 a of
                          (Inl e, st4) \<Rightarrow> Some (Inl e, st4)
                        | (Inr u, st4) \<Rightarrow> Some (Inr b, st4))) = Some (r, st')"
                using prems False mk1 m1 fo True mk2 m2 it lo
                by (simp del: move.simps)
              then obtain w where w: "lo = Some w" by (cases lo) auto
              have lo': "for_each (?body (Suc n)) children st2 = Some w"
                using loop lo w by simp
              show ?thesis
                using mv2 w lo' False mk1 m1 fo True mk2 m2 it
                unfolding step by (auto simp del: move.simps)
            qed
          qed
        qed
      qed
    qed
  qed
then show ?case by (simp only: y)
qed

lemma move_fuel:
  "move n st a b overwrite = Some y \<Longrightarrow> n \<le> m \<Longrightarrow> move m st a b overwrite = Some y"
proof (induction m)
  case 0
  then show ?case by simp
next
  case (Suc m)
  show ?case
  proof (cases "n = Suc m")
    case True
    then show ?thesis using Suc.prems by simp
  next
    case False
    then have "move m st a b overwrite = Some y" using Suc by simp
    then show ?thesis by (rule move_mono)
  qed
qed

lemma copies_deleted_split:
  "copies_deleted (u @ CopyAsset x y # c # v) \<Longrightarrow> c = DeleteAsset x"
proof (induction u)
  case Nil
  then show ?case by simp
next
  case (Cons a u)
  then show ?case by (simp add: copies_deleted_Cons[of a] del: copies_deleted.simps)
qed

text \<open>
  Claim C2, as amended. On a store of normalized, distinct identifiers, for a source and a
  destination neither of which is below the other, \<open>move\<close> returns, a result or an
  exception, and what it returns does not depend on the bound on the recursion once the
  bound exceeds the number of records at or below the source. The source is not deleted
  only at the end of the top-level call, each leaf is deleted right after its own copy:
  in the sequence \<open>new\<close> of the requests sent to the store, every copy that is not the
  last request is followed at once by the deletion of what was copied; a copy takes an asset below the source to its place below the
  destination; a deletion is of an asset below the source and has removed it when the move
  ends, unless it is the last request and the move raised; and a record below the source
  is still there unless its deletion was requested. So when a request fails mid-tree the
  assets moved before are gone from the source, and the others are still there. However
  the call ends, every record below the source that is not a folder is still at its
  identifier or is at the identifier it is moved to (data may be duplicated, it is never
  lost), and the records that are neither below the source nor below the destination are
  untouched. On full success the last request is the deletion of the source itself, the
  source does not exist and the destination exists.
\<close>

theorem move_unlinks_every_source:
  assumes "wf_store st" and "canonical_id s" and "canonical_id d"
    and "\<not> under s d" and "\<not> under d s"
  shows "\<exists>r st' new.
     (\<forall>n. below s st < n \<longrightarrow>
        move n st (Asset_init s) (Asset_init d) overwrite = Some (r, st')) \<and>
     calls st' = calls st @ new \<and>
     (\<forall>u x y c v. new = u @ CopyAsset x y # c # v \<longrightarrow> c = DeleteAsset x) \<and>
     (\<forall>x y. CopyAsset x y \<in> set new \<longrightarrow> under s x \<and> y = relocate s d x) \<and>
     (\<forall>x. DeleteAsset x \<in> set new \<longrightarrow>
        under s x \<and> (x \<notin> fst ` set (assets st') \<or> (isl r \<and> last new = DeleteAsset x))) \<and>
     (\<forall>x\<in>set (assets st). under s (fst x) \<longrightarrow>
        x \<in> set (assets st') \<or> DeleteAsset (fst x) \<in> set new) \<and>
     (\<forall>x\<in>set (assets st). under s (fst x) \<and> snd x \<noteq> ''FOLDER'' \<longrightarrow>
        x \<in> set (assets st') \<or> (relocate s d (fst x), snd x) \<in> set (assets st')) \<and>
     (\<forall>x\<in>set (assets st). \<not> under s (fst x) \<and> \<not> under d (fst x) \<longrightarrow> x \<in> set (assets st')) \<and>
     (\<forall>q. r = Inr q \<longrightarrow>
        q = Asset_init d \<and> new \<noteq> [] \<and> last new = DeleteAsset s \<and>
        exists st' (Asset_init s) False = Inr False \<and>
        exists st' (Asset_init d) False = Inr True) \<and>
     wf_store st'"
proof -
  let ?n = "Suc (below s st)"
  have "below s st < ?n" by simp
  from move_returns_all[of ?n overwrite, unfolded move_returns_def, rule_format, OF assms this]
  obtain r st' where mv: "move ?n st (Asset_init s) (Asset_init d) overwrite = Some (r, st')"
    by force
  have fuel: "\<forall>n. below s st < n \<longrightarrow>
        move n st (Asset_init s) (Asset_init d) overwrite = Some (r, st')"
    using move_fuel[OF mv] by (simp add: Suc_le_eq)
  from move_ok_all[of ?n overwrite, unfolded move_ok_def, rule_format, OF assms mv]
  have w: "wf_store st'" and f: "frame s d st st'" and l: "no_loss s d st st'"
    and ok: "\<forall>q. r = Inr q \<longrightarrow> q = Asset_init d \<and> s \<notin> fst ` set (assets st') \<and>
                            d \<in> fst ` set (assets st')"
    by simp_all
  from move_log_all[of ?n overwrite, unfolded move_log_def, rule_format, OF assms mv]
  obtain new where e: "effects s d st (isl r) st' new"
    and lst: "\<not> isl r \<longrightarrow> new \<noteq> [] \<and> last new = DeleteAsset s"
    by blast
  from e have a: "calls st' = calls st @ new" and cd: "copies_deleted new"
    and c: "\<forall>k\<in>set new. concerns s d k"
    and g: "\<forall>x. DeleteAsset x \<in> set new \<longrightarrow>
               x \<notin> fst ` set (assets st') \<or> (isl r \<and> last new = DeleteAsset x)"
    and k: "\<forall>x\<in>set (assets st). under s (fst x) \<longrightarrow>
               x \<in> set (assets st') \<or> DeleteAsset (fst x) \<in> set new"
    by (simp_all add: effects_def)
  have p1: "\<forall>u x y c v. new = u @ CopyAsset x y # c # v \<longrightarrow> c = DeleteAsset x"
  proof (intro allI impI)
    fix u x y c v assume "new = u @ CopyAsset x y # c # v"
    then show "c = DeleteAsset x" using cd copies_deleted_split[of u x y c v] by simp
  qed
  have p2: "\<forall>x y. CopyAsset x y \<in> set new \<longrightarrow> under s x \<and> y = relocate s d x"
  proof (intro allI impI)
    fix x y assume "CopyAsset x y \<in> set new"
    then have "concerns s d (CopyAsset x y)" using c by blast
    then show "under s x \<and> y = relocate s d x" by simp
  qed
  have p3: "\<forall>x. DeleteAsset x \<in> set new \<longrightarrow>
        under s x \<and> (x \<notin> fst ` set (assets st') \<or> (isl r \<and> last new = DeleteAsset x))"
  proof (intro allI impI)
    fix x assume m: "DeleteAsset x \<in> set new"
    then have "concerns s d (DeleteAsset x)" using c by blast
    then show "under s x \<and> (x \<notin> fst ` set (assets st') \<or> (isl r \<and> last new = DeleteAsset x))"
      using g m by simp
  qed
  have e1: "exists st' (Asset_init s) False = Inr (s \<in> fst ` set (assets st'))"
    and e2: "exists st' (Asset_init d) False = Inr (d \<in> fst ` set (assets st'))"
    using exists_iff canonical_as_posix assms(2,3) by simp_all
  have post: "\<forall>q. r = Inr q \<longrightarrow>
        q = Asset_init d \<and> new \<noteq> [] \<and> last new = DeleteAsset s \<and>
        exists st' (Asset_init s) False = Inr False \<and>
        exists st' (Asset_init d) False = Inr True"
    unfolding e1 e2 using ok lst by auto
  from l have l': "\<forall>x\<in>set (assets st). under s (fst x) \<and> snd x \<noteq> ''FOLDER'' \<longrightarrow>
            x \<in> set (assets st') \<or> (relocate s d (fst x), snd x) \<in> set (assets st')"
    unfolding no_loss_def .
  from f have f': "\<forall>x\<in>set (assets st). \<not> under s (fst x) \<and> \<not> under d (fst x) \<longrightarrow> x \<in> set (assets st')"
    unfolding frame_def .
  from fuel a p1 p2 p3 k l' f' post w show ?thesis
    by (intro exI[of _ r] exI[of _ st'] exI[of _ new] conjI)
qed

theorem move_unlinks_every_source_witness:
  "wf_store (move_store\<lparr>refused := []\<rparr>) \<and>
   canonical_id ''projects/p/assets/A'' \<and> canonical_id ''projects/p/assets/B'' \<and>
   \<not> under ''projects/p/assets/A'' ''projects/p/assets/B'' \<and>
   \<not> under ''projects/p/assets/B'' ''projects/p/assets/A'' \<and>
   below ''projects/p/assets/A'' (move_store\<lparr>refused := []\<rparr>) < 4 \<and>
   move 4 (move_store\<lparr>refused := []\<rparr>)
     (Asset_init ''projects/p/assets/A'') (Asset_init ''projects/p/assets/B'') False
     = Some (Inr (Asset_init ''projects/p/assets/B''),
         \<lparr>assets = [(''projects/p/assets'', ''FOLDER''),
                    (''projects/p/assets/B'', ''FOLDER''),
                    (''projects/p/assets/B/x'', ''IMAGE''),
                    (''projects/p/assets/B/y'', ''IMAGE'')],
          refused = [],
          calls = [CreateAsset ''projects/p/assets/B'',
                   CopyAsset ''projects/p/assets/A/x'' ''projects/p/assets/B/x'',
                   DeleteAsset ''projects/p/assets/A/x'',
                   CopyAsset ''projects/p/assets/A/y'' ''projects/p/assets/B/y'',
                   DeleteAsset ''projects/p/assets/A/y'',
                   DeleteAsset ''projects/p/assets/A'']\<rparr>) \<and>
   exists
     \<lparr>assets = [(''projects/p/assets'', ''FOLDER''),
                (''projects/p/assets/B'', ''FOLDER''),
                (''projects/p/assets/B/x'', ''IMAGE''),
                (''projects/p/assets/B/y'', ''IMAGE'')],
      refused = [],
      calls = [CreateAsset ''projects/p/assets/B'',
               CopyAsset ''projects/p/assets/A/x'' ''projects/p/assets/B/x'',
               DeleteAsset ''projects/p/assets/A/x'',
               CopyAsset ''projects/p/assets/A/y'' ''projects/p/assets/B/y'',
               DeleteAsset ''projects/p/assets/A/y'',
               DeleteAsset ''projects/p/assets/A'']\<rparr>
     (Asset_init ''projects/p/assets/A'') False = Inr False"
proof -
  let ?st = "move_store\<lparr>refused := []\<rparr>"
  let ?st' = "\<lparr>assets = [(''projects/p/assets'', ''FOLDER''),
                (''projects/p/assets/B'', ''FOLDER''),
                (''projects/p/assets/B/x'', ''IMAGE''),
                (''projects/p/assets/B/y'', ''IMAGE'')],
      refused = [],
      calls = [CreateAsset ''projects/p/assets/B'',
               CopyAsset ''projects/p/assets/A/x'' ''projects/p/assets/B/x'',
               DeleteAsset ''projects/p/assets/A/x'',
               CopyAsset ''projects/p/assets/A/y'' ''projects/p/assets/B/y'',
               DeleteAsset ''projects/p/assets/A/y'',
               DeleteAsset ''projects/p/assets/A'']\<rparr>"
  have h1: "wf_store ?st" by code_simp
  have h2: "canonical_id ''projects/p/assets/A''" by code_simp
  have h3: "canonical_id ''projects/p/assets/B''" by code_simp
  have h4: "\<not> under ''projects/p/assets/A'' ''projects/p/assets/B''" by code_simp
  have h5: "\<not> under ''projects/p/assets/B'' ''projects/p/assets/A''" by code_simp
  have h6: "below ''projects/p/assets/A'' ?st < 4" by code_simp
  have h7: "move 4 ?st (Asset_init ''projects/p/assets/A'') (Asset_init ''projects/p/assets/B'') False
     = Some (Inr (Asset_init ''projects/p/assets/B''), ?st')"
    by code_simp
  let ?A = "''projects/p/assets/A''" and ?B = "''projects/p/assets/B''"
  from move_unlinks_every_source[OF h1 h2 h3 h4 h5, of False] obtain r st' new where
    run: "\<forall>n. below ?A ?st < n \<longrightarrow> move n ?st (Asset_init ?A) (Asset_init ?B) False = Some (r, st')"
    and post: "\<forall>q. r = Inr q \<longrightarrow>
        q = Asset_init ?B \<and> new \<noteq> [] \<and> last new = DeleteAsset ?A \<and>
        exists st' (Asset_init ?A) False = Inr False \<and>
        exists st' (Asset_init ?B) False = Inr True"
    by (elim exE conjE)
  have "move 4 ?st (Asset_init ?A) (Asset_init ?B) False = Some (r, st')"
    using run[rule_format, OF h6] .
  then have "(r, st') = (Inr (Asset_init ?B), ?st')" using h7 by (simp only: option.inject)
  then have r: "r = Inr (Asset_init ?B)" and st': "st' = ?st'" by (simp_all only: prod.inject)
  have "exists st' (Asset_init ?A) False = Inr False"
    using post[rule_format, OF r] by blast
  then have "exists ?st' (Asset_init ?A) False = Inr False" by (simp only: st')
  then show ?thesis using h1 h2 h3 h4 h5 h6 h7 by blast
qed

end
